theory Spec2Isabelle
  imports Complex_Main
begin

section \<open>Python strings\<close>

text \<open>
  A Python \<open>str\<close> is a sequence of Unicode code points. The scraper depends on code
  points beyond one byte (the en dash U+2013 separates opening hours, addresses carry
  non-ASCII letters), so a string is modelled as the list of its code points; an ASCII
  literal of the source is written \<open>ustr ''...''\<close>.
\<close>

type_synonym ustring = "nat list"

definition ustr :: "string \<Rightarrow> ustring" where
  "ustr s = map of_char s"

text \<open>
  \<open>str.strip()\<close> removes the characters for which \<open>str.isspace\<close> holds: the ASCII
  controls 9 to 13 and 28 to 31, the space, and the Unicode spaces listed below.
\<close>

definition py_isspace :: "nat \<Rightarrow> bool" where
  "py_isspace c \<longleftrightarrow>
     (9 \<le> c \<and> c \<le> 13) \<or> (28 \<le> c \<and> c \<le> 32) \<or> c = 133 \<or> c = 160 \<or> c = 5760 \<or>
     (8192 \<le> c \<and> c \<le> 8202) \<or> c = 8232 \<or> c = 8233 \<or> c = 8239 \<or> c = 8287 \<or>
     c = 12288"

definition strip_where :: "(nat \<Rightarrow> bool) \<Rightarrow> ustring \<Rightarrow> ustring" where
  "strip_where P s = rev (dropWhile P (rev (dropWhile P s)))"

definition strip :: "ustring \<Rightarrow> ustring" where
  "strip s = strip_where py_isspace s"

definition strip_chars :: "ustring \<Rightarrow> ustring \<Rightarrow> ustring" where
  "strip_chars cs s = strip_where (\<lambda>c. c \<in> set cs) s"

definition startswith :: "ustring \<Rightarrow> ustring \<Rightarrow> bool" where
  "startswith s p \<longleftrightarrow> take (length p) s = p"

text \<open>
  \<open>re.sub\<close> with a pattern \<open>[class]+\<close>: every maximal run of characters of the class
  is replaced by the replacement text.
\<close>

function sub_runs :: "(nat \<Rightarrow> bool) \<Rightarrow> ustring \<Rightarrow> ustring \<Rightarrow> ustring" where
  "sub_runs P r [] = []"
| "sub_runs P r (c # cs) =
     (if P c then r @ sub_runs P r (dropWhile P cs) else c # sub_runs P r cs)"
  by pat_completeness auto
termination
  by (relation "measure (\<lambda>(P, r, s). length s)")
     (auto simp: length_dropWhile_le less_Suc_eq_le)

text \<open>
  \<open>re.search\<close> tries the pattern at every position from the left; \<open>search_from m s\<close>
  does so for a matcher \<open>m\<close> that is given the rest of the text at a position.
\<close>

fun search_from :: "(ustring \<Rightarrow> 'a option) \<Rightarrow> ustring \<Rightarrow> 'a option" where
  "search_from m [] = m []"
| "search_from m (c # cs) =
     (case m (c # cs) of Some r \<Rightarrow> Some r | None \<Rightarrow> search_from m cs)"

text \<open>
  A call that may raise: its answer is \<open>Raises\<close> or the value returned. Every \<open>try\<close> of the
  source is a case distinction on such an answer.
\<close>

datatype 'a py = Raises | Returns 'a

section \<open>The output file name\<close>

text \<open>
  \<open>sanitize_filename\<close> uses the raw pattern \<open>[^a-zA-Z0-9_\\-]+\<close>. In a raw string the two
  backslashes reach the regular expression as an escaped backslash, so the class that is
  kept holds the letters, the digits, the underscore (95), the backslash (92) and the
  hyphen (45).
\<close>

definition fname_kept :: "nat \<Rightarrow> bool" where
  "fname_kept c \<longleftrightarrow>
     (97 \<le> c \<and> c \<le> 122) \<or> (65 \<le> c \<and> c \<le> 90) \<or> (48 \<le> c \<and> c \<le> 57) \<or>
     c = 95 \<or> c = 92 \<or> c = 45"

definition sanitize_filename :: "ustring \<Rightarrow> ustring" where
  "sanitize_filename name =
     (let safe = strip_chars (ustr ''_'') (sub_runs (\<lambda>c. \<not> fname_kept c) (ustr ''_'') name)
      in if safe = [] then ustr ''results'' else safe)"

text \<open>
  The pattern \<open>/maps/search/([^/?]+)\<close> of the orchestrator: the first position where the
  literal is followed by at least one character other than \<open>/\<close> (47) and \<open>?\<close> (63); the
  group is the longest run of such characters.
\<close>

definition search_segment_at :: "ustring \<Rightarrow> ustring option" where
  "search_segment_at s =
     (let lit = ustr ''/maps/search/''; rest = drop (length lit) s;
          seg = takeWhile (\<lambda>c. c \<noteq> 47 \<and> c \<noteq> 63) rest
      in if startswith s lit \<and> seg \<noteq> [] then Some seg else None)"

text \<open>
  The title the file name is derived from. \<open>urllib.parse\<close> is a library. \<open>query_q\<close> stands for
  \<open>parse_qs(urlparse(u).query)\<close> read at the key \<open>q\<close>: \<open>Raises\<close> when \<open>urlparse\<close> raises (a
  \<open>ValueError\<close>, as for the input \<open>http://[\<close>; no handler stands around the call), otherwise
  the first value of the key, \<open>None\<close> when the key is absent. \<open>unquote\<close> stands for
  \<open>urllib.parse.unquote\<close>, which returns for every text.
\<close>

definition search_title ::
  "(ustring \<Rightarrow> ustring option py) \<Rightarrow> (ustring \<Rightarrow> ustring) \<Rightarrow> ustring \<Rightarrow> ustring py" where
  "search_title query_q unquote user_input =
     (if startswith user_input (ustr ''http'') then
        (case query_q user_input of
           Raises \<Rightarrow> Raises
         | Returns (Some q) \<Rightarrow> Returns q
         | Returns None \<Rightarrow>
            (case search_from search_segment_at user_input of
               Some seg \<Rightarrow> Returns (unquote seg)
             | None \<Rightarrow> Returns (ustr ''google_maps_results'')))
      else Returns user_input)"

definition output_basename ::
  "(ustring \<Rightarrow> ustring option py) \<Rightarrow> (ustring \<Rightarrow> ustring) \<Rightarrow> ustring \<Rightarrow> ustring py" where
  "output_basename query_q unquote user_input =
     (case search_title query_q unquote user_input of
        Raises \<Rightarrow> Raises
      | Returns title \<Rightarrow> Returns (sanitize_filename title))"

definition output_filename ::
  "(ustring \<Rightarrow> ustring option py) \<Rightarrow> (ustring \<Rightarrow> ustring) \<Rightarrow> ustring \<Rightarrow> ustring py" where
  "output_filename query_q unquote user_input =
     (case output_basename query_q unquote user_input of
        Raises \<Rightarrow> Raises
      | Returns base \<Rightarrow> Returns (base @ ustr ''.csv''))"

section \<open>Regular expressions\<close>

text \<open>
  Python's \<open>re\<close> is a backtracking matcher. A pattern is modelled as a function from a
  position to the list of positions at which a match of the pattern can end, in the order
  in which the matcher tries them; the matcher's answer is the head of that list. A
  position holds the character before it (for \<open>\b\<close>), the rest of the text and the
  groups captured so far.
\<close>

type_synonym rpos = "nat option \<times> ustring \<times> ustring list"
type_synonym rx = "rpos \<Rightarrow> rpos list"

definition rx_cls :: "(nat \<Rightarrow> bool) \<Rightarrow> rx" where
  "rx_cls P = (\<lambda>(p, s, g). case s of [] \<Rightarrow> [] | c # cs \<Rightarrow> if P c then [(Some c, cs, g)] else [])"

definition rx_seq :: "rx \<Rightarrow> rx \<Rightarrow> rx" where
  "rx_seq a b = (\<lambda>x. concat (map b (a x)))"

definition rx_alt :: "rx \<Rightarrow> rx \<Rightarrow> rx" where
  "rx_alt a b = (\<lambda>x. a x @ b x)"

definition rx_eps :: rx where
  "rx_eps = (\<lambda>x. [x])"

definition rx_opt :: "rx \<Rightarrow> rx" where
  "rx_opt a = rx_alt a rx_eps"

primrec rx_lit :: "ustring \<Rightarrow> rx" where
  "rx_lit [] = rx_eps"
| "rx_lit (c # cs) = rx_seq (rx_cls (\<lambda>d. d = c)) (rx_lit cs)"

primrec rx_exact :: "nat \<Rightarrow> rx \<Rightarrow> rx" where
  "rx_exact 0 a = rx_eps"
| "rx_exact (Suc n) a = rx_seq a (rx_exact n a)"

primrec rx_upto :: "nat \<Rightarrow> rx \<Rightarrow> rx" where
  "rx_upto 0 a = rx_eps"
| "rx_upto (Suc n) a = rx_alt (rx_seq a (rx_upto n a)) rx_eps"

text \<open>The greedy \<open>a{m,n}\<close>.\<close>

definition rx_rep :: "nat \<Rightarrow> nat \<Rightarrow> rx \<Rightarrow> rx" where
  "rx_rep m n a = rx_seq (rx_exact m a) (rx_upto (n - m) a)"

text \<open>The greedy \<open>[class]+\<close>: the longest run first, then each shorter one.\<close>

fun rx_many_from :: "(nat \<Rightarrow> bool) \<Rightarrow> nat option \<Rightarrow> ustring \<Rightarrow> ustring list \<Rightarrow> rpos list" where
  "rx_many_from P p [] g = []"
| "rx_many_from P p (c # cs) g =
     (if P c then rx_many_from P (Some c) cs g @ [(Some c, cs, g)] else [])"

definition rx_many1 :: "(nat \<Rightarrow> bool) \<Rightarrow> rx" where
  "rx_many1 P = (\<lambda>(p, s, g). rx_many_from P p s g)"

text \<open>A capturing group appends the text its body consumed.\<close>

definition rx_grp :: "rx \<Rightarrow> rx" where
  "rx_grp a = (\<lambda>(p, s, g).
     map (\<lambda>(p', s', g'). (p', s', g' @ [take (length s - length s') s])) (a (p, s, g)))"

definition is_digit :: "nat \<Rightarrow> bool" where
  "is_digit c \<longleftrightarrow> 48 \<le> c \<and> c \<le> 57"

definition is_alpha :: "nat \<Rightarrow> bool" where
  "is_alpha c \<longleftrightarrow> (65 \<le> c \<and> c \<le> 90) \<or> (97 \<le> c \<and> c \<le> 122)"

text \<open>
  \<open>\w\<close> on ASCII text: letters, digits and the underscore. \<open>\b\<close> holds where exactly one
  of the two neighbours is such a character; the ends of the text count as none.
\<close>

definition is_word :: "nat \<Rightarrow> bool" where
  "is_word c \<longleftrightarrow> is_alpha c \<or> is_digit c \<or> c = 95"

definition rx_wordb :: rx where
  "rx_wordb = (\<lambda>(p, s, g).
     let prev_w = (case p of None \<Rightarrow> False | Some c \<Rightarrow> is_word c);
         next_w = (case s of [] \<Rightarrow> False | c # _ \<Rightarrow> is_word c)
     in if prev_w \<noteq> next_w then [(p, s, g)] else [])"

text \<open>
  \<open>re.search\<close>: the leftmost position at which the pattern matches, with the matcher's
  first way to match there. The result is the matched text (group 0) and the groups.
\<close>

fun rx_search_from :: "rx \<Rightarrow> nat option \<Rightarrow> ustring \<Rightarrow> (ustring \<times> ustring list) option" where
  "rx_search_from r p [] =
     (case r (p, [], []) of [] \<Rightarrow> None | (p', s', g) # _ \<Rightarrow> Some ([], g))"
| "rx_search_from r p (c # cs) =
     (case r (p, c # cs, []) of
        (p', s', g) # _ \<Rightarrow> Some (take (length (c # cs) - length s') (c # cs), g)
      | [] \<Rightarrow> rx_search_from r (Some c) cs)"

definition re_search :: "rx \<Rightarrow> ustring \<Rightarrow> (ustring \<times> ustring list) option" where
  "re_search r s = rx_search_from r None s"

section \<open>The address parser\<close>

text \<open>\<open>str.split(sep)\<close> for a separator of one character: always at least one piece.\<close>

fun split_on :: "nat \<Rightarrow> ustring \<Rightarrow> ustring list" where
  "split_on d [] = [[]]"
| "split_on d (c # cs) =
     (if c = d then [] # split_on d cs
      else (case split_on d cs of [] \<Rightarrow> [[c]] | p # ps \<Rightarrow> (c # p) # ps))"

text \<open>\<open>re.sub(re.escape(lit), '', s)\<close>: every occurrence of the literal, from the left, is removed.\<close>

function remove_all :: "ustring \<Rightarrow> ustring \<Rightarrow> ustring" where
  "remove_all lit [] = []"
| "remove_all lit (c # cs) =
     (if lit \<noteq> [] \<and> startswith (c # cs) lit then remove_all lit (drop (length lit) (c # cs))
      else c # remove_all lit cs)"
  by pat_completeness auto
termination
  by (relation "measure (\<lambda>(lit, s). length s)") auto

text \<open>
  The postal code pattern \<open>\b([A-Z]{1,2}\d[A-Z0-9]?\s?\d[A-Z]{2}|\d{4,6})\b\<close> with
  \<open>re.IGNORECASE\<close>. It is applied to text from which the characters above 127 have been
  removed, where \<open>\d\<close> is an ASCII digit and, ignoring case, \<open>[A-Z]\<close> an ASCII letter.
\<close>

definition zip_rx :: rx where
  "zip_rx =
     rx_seq rx_wordb
       (rx_seq
          (rx_grp
             (rx_alt
                (rx_seq (rx_rep 1 2 (rx_cls is_alpha))
                  (rx_seq (rx_cls is_digit)
                    (rx_seq (rx_opt (rx_cls (\<lambda>c. is_alpha c \<or> is_digit c)))
                      (rx_seq (rx_opt (rx_cls py_isspace))
                        (rx_seq (rx_cls is_digit) (rx_exact 2 (rx_cls is_alpha)))))))
                (rx_rep 4 6 (rx_cls is_digit))))
          rx_wordb)"

definition dash :: ustring where
  "dash = ustr ''-''"

text \<open>
  \<open>parts\<close> of \<open>parse_address_parts\<close>: the address without its runs of non-ASCII characters,
  stripped, split at the commas (44), each piece stripped, the empty ones dropped.
\<close>

definition address_parts :: "ustring \<Rightarrow> ustring list" where
  "address_parts address =
     (let cleaned = strip (sub_runs (\<lambda>c. 127 < c) [] address)
      in map strip (filter (\<lambda>p. strip p \<noteq> []) (split_on 44 cleaned)))"

text \<open>
  Group 1 of the postal code pattern takes part in every match; a match without it cannot
  occur and is read as no match.
\<close>

definition zip_city :: "ustring \<Rightarrow> ustring \<times> ustring" where
  "zip_city target =
     (case re_search zip_rx target of
        Some (m, g1 # _) \<Rightarrow>
          (let zip_code = strip g1
           in (strip (strip_chars (ustr '', '') (remove_all zip_code target)), zip_code))
      | _ \<Rightarrow> (strip target, dash))"

definition parse_address_parts :: "ustring \<Rightarrow> ustring \<times> ustring \<times> ustring" where
  "parse_address_parts address =
     (let parts = address_parts address
      in if parts = [] then (dash, dash, dash)
         else
           let (country, target) =
                 (if 2 \<le> length parts \<and> re_search (rx_cls is_digit) (last parts) = None
                  then (last parts, parts ! (length parts - 2))
                  else (dash, last parts));
               (city, zip_code) = zip_city target
           in (if city = [] then dash else city,
               if zip_code = [] then dash else zip_code,
               if country = [] then dash else country))"

section \<open>The record and the page\<close>

text \<open>
  The dataclass \<open>Place\<close>. A Python float is modelled by the exact decimal value of the
  text it was read from (Python rounds that value to the nearest double, and takes
  infinity for a value beyond the largest double).
\<close>

record place =
  s_no :: int
  name :: ustring
  address :: ustring
  website :: ustring
  phone_number :: ustring
  reviews_count :: "int option"
  reviews_average :: "rat option"
  category :: ustring
  latitude :: rat
  longitude :: rat
  city :: ustring
  zip_code :: ustring
  country :: ustring
  monday_hours :: ustring
  tuesday_hours :: ustring
  wednesday_hours :: ustring
  thursday_hours :: ustring
  friday_hours :: ustring
  saturday_hours :: ustring
  sunday_hours :: ustring
  instagram_url :: ustring
  facebook_url :: ustring
  linkedin_url :: ustring
  x_url :: ustring
  listing_url :: ustring
  source :: ustring

definition new_place :: place where
  "new_place = \<lparr>s_no = 0, name = [], address = [], website = [], phone_number = [],
     reviews_count = None, reviews_average = None, category = [], latitude = 0, longitude = 0,
     city = [], zip_code = [], country = [], monday_hours = [], tuesday_hours = [],
     wednesday_hours = [], thursday_hours = [], friday_hours = [], saturday_hours = [],
     sunday_hours = [], instagram_url = [], facebook_url = [], linkedin_url = [], x_url = [],
     listing_url = [], source = []\<rparr>"

text \<open>
  The browser is a capability outside the program. A call into it either raises or
  returns; what a listing page answers to the calls of \<open>extract_place\<close> is the page's
  model. A probe is one located element: what \<open>count()\<close> answers and what reading its text
  (or its attribute) answers, where Python's \<open>None\<close> is \<open>None\<close>.
\<close>

record probe =
  count :: "nat py"
  content :: "ustring option py"

text \<open>
  The hours widget: the answer to the first \<open>rows.count()\<close>, and, for the loop over
  \<open>range(rows.count())\<close>, the cells read in each row (\<open>Raises\<close> when that second count
  raises). A cell is the answer of \<open>inner_text()\<close>.
\<close>

type_synonym cell = "ustring option py"

record hours_widget =
  first_count :: "nat py"
  loop_rows :: "(cell \<times> cell) list py"

record page =
  name_el :: probe
  address_el :: probe
  phone_el :: probe
  category_el :: probe
  rating_el :: probe
  review_el :: probe
  authority_el :: probe
  hours_el :: hours_widget

definition or_empty :: "ustring option \<Rightarrow> ustring" where
  "or_empty t = (case t of None \<Rightarrow> [] | Some s \<Rightarrow> s)"

definition extract_text :: "probe \<Rightarrow> ustring" where
  "extract_text loc =
     (case count loc of
        Raises \<Rightarrow> []
      | Returns n \<Rightarrow>
          if 0 < n then (case content loc of Raises \<Rightarrow> [] | Returns t \<Rightarrow> strip (or_empty t))
          else [])"

section \<open>The hours parser\<close>

text \<open>\<open>sub in s\<close> for strings.\<close>

fun contains :: "ustring \<Rightarrow> ustring \<Rightarrow> bool" where
  "contains [] sub = (sub = [])"
| "contains (c # cs) sub = (startswith (c # cs) sub \<or> contains cs sub)"

text \<open>
  \<open>re.split(r'\<dots>|-|to', text)\<close>, where the first alternative is the en dash (8211): the
  text is cut at every en dash, hyphen (45) and every \<open>to\<close> (116, 111), from the left.
\<close>

fun hours_split :: "ustring \<Rightarrow> ustring list" where
  "hours_split [] = [[]]"
| "hours_split [c] = (if c = 8211 \<or> c = 45 then [[], []] else [[c]])"
| "hours_split (c # d # cs) =
     (if c = 8211 \<or> c = 45 then [] # hours_split (d # cs)
      else if c = 116 \<and> d = 111 then [] # hours_split cs
      else (case hours_split (d # cs) of [] \<Rightarrow> [[c]] | p # ps \<Rightarrow> (c # p) # ps))"

text \<open>
  The text stored for a row. \<open>str.lower\<close> is Unicode's case mapping, a library function:
  it is the parameter \<open>lower\<close>.
\<close>

definition hours_text :: "(ustring \<Rightarrow> ustring) \<Rightarrow> ustring \<Rightarrow> ustring" where
  "hours_text lower times_text =
     (let lt = lower times_text
      in if contains lt (ustr ''24'') \<and> contains lt (ustr ''hour'') then ustr ''Open 24 hours''
         else if contains lt (ustr ''closed'') then ustr ''Closed''
         else
           let parts = hours_split times_text;
               open_time = (case parts of [] \<Rightarrow> [] | p # _ \<Rightarrow> strip p);
               close_time = (case parts of _ # q # _ \<Rightarrow> strip q | _ \<Rightarrow> [])
           in if open_time \<noteq> [] \<and> close_time \<noteq> [] then open_time @ ustr '' to '' @ close_time
              else if open_time \<noteq> [] then open_time
              else dash)"

datatype day = Mon | Tue | Wed | Thu | Fri | Sat | Sun

definition day_map :: "(ustring \<times> day) list" where
  "day_map = [(ustr ''mon'', Mon), (ustr ''tue'', Tue), (ustr ''wed'', Wed), (ustr ''thu'', Thu),
     (ustr ''fri'', Fri), (ustr ''sat'', Sat), (ustr ''sun'', Sun)]"

fun set_hours :: "day \<Rightarrow> ustring \<Rightarrow> place \<Rightarrow> place" where
  "set_hours Mon v p = p\<lparr>monday_hours := v\<rparr>"
| "set_hours Tue v p = p\<lparr>tuesday_hours := v\<rparr>"
| "set_hours Wed v p = p\<lparr>wednesday_hours := v\<rparr>"
| "set_hours Thu v p = p\<lparr>thursday_hours := v\<rparr>"
| "set_hours Fri v p = p\<lparr>friday_hours := v\<rparr>"
| "set_hours Sat v p = p\<lparr>saturday_hours := v\<rparr>"
| "set_hours Sun v p = p\<lparr>sunday_hours := v\<rparr>"


text \<open>
  One turn of the loop over the rows. A cell that raises, and a day label that holds none
  of the seven keys, leave the record as it is (\<open>continue\<close>).
\<close>

definition hours_row :: "(ustring \<Rightarrow> ustring) \<Rightarrow> place \<Rightarrow> cell \<times> cell \<Rightarrow> place" where
  "hours_row lower p row =
     (case fst row of
        Raises \<Rightarrow> p
      | Returns d \<Rightarrow>
          (case snd row of
             Raises \<Rightarrow> p
           | Returns t \<Rightarrow>
               let day_text = lower (strip (or_empty d));
                   times_text = strip (or_empty t)
               in (case find (\<lambda>(k, f). contains day_text k) day_map of
                     None \<Rightarrow> p
                   | Some (k, f) \<Rightarrow> set_hours f (hours_text lower times_text) p)))"

definition init_hours :: "place \<Rightarrow> place" where
  "init_hours p = foldl (\<lambda>q (k, f). set_hours f dash q) p day_map"

definition parse_weekly_hours :: "(ustring \<Rightarrow> ustring) \<Rightarrow> hours_widget \<Rightarrow> place \<Rightarrow> place" where
  "parse_weekly_hours lower w p =
     (case first_count w of
        Raises \<Rightarrow> p
      | Returns n \<Rightarrow>
          (case loop_rows w of
             Raises \<Rightarrow> init_hours p
           | Returns rows \<Rightarrow> foldl (hours_row lower) (init_hours p) rows))"

section \<open>Numbers, coordinates, links\<close>

definition digits_val :: "ustring \<Rightarrow> nat" where
  "digits_val ds = foldl (\<lambda>a c. 10 * a + (c - 48)) 0 ds"

text \<open>
  \<open>float(text)\<close> for the texts the program passes to it, which are made of digits, dots
  (46) and hyphens (45): an optional sign, digits around at most one dot, at least one
  digit; anything else raises \<open>ValueError\<close> (\<open>None\<close>).
\<close>

definition py_float :: "ustring \<Rightarrow> rat option" where
  "py_float s =
     (let neg = (case s of [] \<Rightarrow> False | c # _ \<Rightarrow> c = 45);
          body = (if neg then tl s else s);
          ip = takeWhile is_digit body;
          r = dropWhile is_digit body;
          fp = (case r of [] \<Rightarrow> [] | _ # t \<Rightarrow> t);
          ok = (case r of [] \<Rightarrow> ip \<noteq> [] | d # t \<Rightarrow> d = 46 \<and> list_all is_digit t \<and> (ip \<noteq> [] \<or> t \<noteq> []));
          v = of_nat (digits_val (ip @ fp)) / of_nat (10 ^ length fp)
      in if ok then Some (if neg then - v else v) else None)"

text \<open>
  \<open>int(text)\<close> for a text of digits: \<open>None\<close> is a raise. The empty text raises, and so
  does, from Python 3.11 on, a text of more than 4300 digits (the default of
  \<open>sys.int_max_str_digits\<close>); the handler around the call treats both alike.
\<close>

definition int_max_str_digits :: nat where
  "int_max_str_digits = 4300"

definition py_int :: "ustring \<Rightarrow> int option" where
  "py_int s =
     (if s \<noteq> [] \<and> list_all is_digit s \<and> length s \<le> int_max_str_digits
      then Some (int (digits_val s)) else None)"

text \<open>
  The rating: the first run \<open>[0-9.]+\<close> of the \<open>aria-label\<close>, read as a float. Every failure
  inside the \<open>try\<close> leaves or sets \<open>None\<close>.
\<close>

definition rating_of :: "probe \<Rightarrow> rat option" where
  "rating_of el =
     (case count el of
        Raises \<Rightarrow> None
      | Returns n \<Rightarrow>
          if 0 < n then
            (case content el of
               Raises \<Rightarrow> None
             | Returns a \<Rightarrow>
                 (case re_search (rx_many1 (\<lambda>c. is_digit c \<or> c = 46)) (or_empty a) of
                    None \<Rightarrow> None
                  | Some (m, g) \<Rightarrow> py_float m))
          else None)"

text \<open>The review count: the first run \<open>[0-9,]+\<close>, its commas (44) removed, read as an int.\<close>

definition review_count_of :: "probe \<Rightarrow> int option" where
  "review_count_of el =
     (case count el of
        Raises \<Rightarrow> None
      | Returns n \<Rightarrow>
          if 0 < n then
            (case content el of
               Raises \<Rightarrow> None
             | Returns a \<Rightarrow>
                 (case re_search (rx_many1 (\<lambda>c. is_digit c \<or> c = 44)) (or_empty a) of
                    None \<Rightarrow> None
                  | Some (m, g) \<Rightarrow> py_int (filter (\<lambda>c. c \<noteq> 44) m)))
          else None)"

definition website_of :: "probe \<Rightarrow> ustring" where
  "website_of el =
     (case count el of
        Raises \<Rightarrow> []
      | Returns n \<Rightarrow>
          if n \<noteq> 0 then
            (case content el of
               Raises \<Rightarrow> []
             | Returns h \<Rightarrow>
                 let website_url = or_empty h
                 in strip (if website_url \<noteq> [] \<and> \<not> startswith website_url (ustr ''http'')
                           then ustr ''https://'' @ dropWhile (\<lambda>c. c = 47) website_url
                           else website_url))
          else [])"

text \<open>
  The coordinates. The patterns are \<open>@([0-9\.-]+),([0-9\.-]+)\<close> and
  \<open>!3d([-0-9\.]+)!4d([-0-9\.]+)\<close>; both classes hold the digits, the dot and the hyphen.
  The second pattern is tried only when the first has no match; a group that is not a
  float raises inside the \<open>try\<close>, whose handler stores zero twice.
\<close>

definition coord_cls :: "nat \<Rightarrow> bool" where
  "coord_cls c \<longleftrightarrow> is_digit c \<or> c = 46 \<or> c = 45"

definition at_rx :: rx where
  "at_rx = rx_seq (rx_lit (ustr ''@''))
             (rx_seq (rx_grp (rx_many1 coord_cls))
                (rx_seq (rx_lit (ustr '','')) (rx_grp (rx_many1 coord_cls))))"

definition bang_rx :: rx where
  "bang_rx = rx_seq (rx_lit (ustr ''!3d''))
               (rx_seq (rx_grp (rx_many1 coord_cls))
                  (rx_seq (rx_lit (ustr ''!4d'')) (rx_grp (rx_many1 coord_cls))))"

definition coords_of_match :: "ustring \<times> ustring list \<Rightarrow> rat \<times> rat" where
  "coords_of_match m =
     (case snd m of
        g1 # g2 # _ \<Rightarrow>
          (case py_float g1 of
             None \<Rightarrow> (0, 0)
           | Some la \<Rightarrow> (case py_float g2 of None \<Rightarrow> (0, 0) | Some lo \<Rightarrow> (la, lo)))
      | _ \<Rightarrow> (0, 0))"

definition extract_coords :: "ustring \<Rightarrow> rat \<times> rat" where
  "extract_coords listing =
     (case re_search at_rx listing of
        Some m \<Rightarrow> coords_of_match m
      | None \<Rightarrow>
          (case re_search bang_rx listing of
             Some m \<Rightarrow> coords_of_match m
           | None \<Rightarrow> (0, 0)))"

text \<open>
  The social links. The class \<open>[A-Za-z0-9_.\-/%?=]\<close> and the four patterns, each starting
  with the literal \<open>https://\<close>.
\<close>

definition social_cls :: "nat \<Rightarrow> bool" where
  "social_cls c \<longleftrightarrow>
     is_alpha c \<or> is_digit c \<or> c = 95 \<or> c = 46 \<or> c = 45 \<or> c = 47 \<or> c = 37 \<or> c = 63 \<or> c = 61"

definition www_rx :: "ustring \<Rightarrow> rx" where
  "www_rx host =
     rx_seq (rx_lit (ustr ''https://''))
       (rx_seq (rx_opt (rx_lit (ustr ''www.'')))
          (rx_seq (rx_lit host) (rx_many1 social_cls)))"

definition instagram_rx :: rx where
  "instagram_rx = www_rx (ustr ''instagram.com/'')"

definition facebook_rx :: rx where
  "facebook_rx = www_rx (ustr ''facebook.com/'')"

definition linkedin_rx :: rx where
  "linkedin_rx = www_rx (ustr ''linkedin.com/'')"

definition x_rx :: rx where
  "x_rx =
     rx_seq (rx_lit (ustr ''https://''))
       (rx_seq (rx_alt (rx_lit (ustr ''twitter'')) (rx_lit (ustr ''x'')))
          (rx_seq (rx_lit (ustr ''.com/'')) (rx_many1 social_cls)))"

definition first_match :: "rx \<Rightarrow> ustring \<Rightarrow> ustring option" where
  "first_match r html = map_option fst (re_search r html)"

text \<open>
  \<open>fetch\<close> is \<open>requests.get\<close>: it raises or returns the status code and the body. Every
  failure inside the \<open>try\<close> ends the function with the record as it is then.
\<close>

definition fetch_url :: "ustring \<Rightarrow> ustring" where
  "fetch_url website_url =
     (let url = (if startswith website_url (ustr ''//'') then ustr ''https:'' @ website_url
                 else website_url)
      in if \<not> startswith url (ustr ''http'') then ustr ''https://'' @ dropWhile (\<lambda>c. c = 47) url
         else url)"

definition sniff :: "ustring \<Rightarrow> place \<Rightarrow> place" where
  "sniff html p =
     (let p1 = (case first_match instagram_rx html of None \<Rightarrow> p | Some m \<Rightarrow> p\<lparr>instagram_url := m\<rparr>);
          p2 = (case first_match facebook_rx html of None \<Rightarrow> p1 | Some m \<Rightarrow> p1\<lparr>facebook_url := m\<rparr>);
          p3 = (case first_match linkedin_rx html of None \<Rightarrow> p2 | Some m \<Rightarrow> p2\<lparr>linkedin_url := m\<rparr>)
      in (case first_match x_rx html of None \<Rightarrow> p3 | Some m \<Rightarrow> p3\<lparr>x_url := m\<rparr>))"

definition extract_social_links ::
  "(ustring \<Rightarrow> (int \<times> ustring) py) \<Rightarrow> ustring \<Rightarrow> place \<Rightarrow> place" where
  "extract_social_links fetch website_url p =
     (if website_url = [] then p
      else (case fetch (fetch_url website_url) of
              Raises \<Rightarrow> p
            | Returns (status, html) \<Rightarrow> if status \<noteq> 200 then p else sniff html p))"

section \<open>The record extractor\<close>

definition norm_field :: "ustring \<Rightarrow> ustring" where
  "norm_field v = (if strip v = [] then dash else v)"

text \<open>The last loop of \<open>extract_place\<close>, over the fields that hold a \<open>str\<close>.\<close>

definition normalize_place :: "place \<Rightarrow> place" where
  "normalize_place p =
     p\<lparr>name := norm_field (name p), address := norm_field (address p),
       website := norm_field (website p), phone_number := norm_field (phone_number p),
       category := norm_field (category p), city := norm_field (city p),
       zip_code := norm_field (zip_code p), country := norm_field (country p),
       monday_hours := norm_field (monday_hours p), tuesday_hours := norm_field (tuesday_hours p),
       wednesday_hours := norm_field (wednesday_hours p),
       thursday_hours := norm_field (thursday_hours p),
       friday_hours := norm_field (friday_hours p), saturday_hours := norm_field (saturday_hours p),
       sunday_hours := norm_field (sunday_hours p), instagram_url := norm_field (instagram_url p),
       facebook_url := norm_field (facebook_url p), linkedin_url := norm_field (linkedin_url p),
       x_url := norm_field (x_url p), listing_url := norm_field (listing_url p),
       source := norm_field (source p)\<rparr>"

text \<open>
  \<open>extract_place\<close> up to its final loop: the fields are filled in the order of the source,
  each from the page, the listing URL or a field read before; \<open>extract_place\<close> itself is
  this followed by the final pass.
\<close>

definition populate ::
  "(ustring \<Rightarrow> ustring) \<Rightarrow> (ustring \<Rightarrow> (int \<times> ustring) py) \<Rightarrow> page \<Rightarrow> ustring \<Rightarrow> int \<Rightarrow> ustring \<Rightarrow> place" where
  "populate lower fetch pg user_input index link =
     (let p0 = new_place\<lparr>s_no := index, source := user_input, listing_url := link\<rparr>;
          p1 = p0\<lparr>name := extract_text (name_el pg), address := extract_text (address_el pg),
                 phone_number := extract_text (phone_el pg),
                 category := extract_text (category_el pg)\<rparr>;
          p2 = p1\<lparr>reviews_average := rating_of (rating_el pg),
                 reviews_count := review_count_of (review_el pg),
                 website := website_of (authority_el pg)\<rparr>;
          p3 = p2\<lparr>latitude := fst (extract_coords link), longitude := snd (extract_coords link)\<rparr>;
          parsed = (if address p3 \<noteq> [] then parse_address_parts (address p3)
                    else (dash, dash, dash));
          p4 = p3\<lparr>city := fst parsed, zip_code := fst (snd parsed), country := snd (snd parsed)\<rparr>;
          p5 = parse_weekly_hours lower (hours_el pg) p4
      in if website p5 \<noteq> [] then extract_social_links fetch (website p5) p5 else p5)"

definition extract_place ::
  "(ustring \<Rightarrow> ustring) \<Rightarrow> (ustring \<Rightarrow> (int \<times> ustring) py) \<Rightarrow> page \<Rightarrow> ustring \<Rightarrow> int \<Rightarrow> ustring \<Rightarrow> place" where
  "extract_place lower fetch pg user_input index link =
     normalize_place (populate lower fetch pg user_input index link)"

section \<open>Forms of an hours field\<close>

text \<open>
  \<open>range_form v\<close>: the text is \<open>open to close\<close> with both parts non-empty, that is, it can
  be cut before an occurrence of \<open>'' to ''\<close> with text on both sides.
\<close>

fun range_scan :: "bool \<Rightarrow> ustring \<Rightarrow> bool" where
  "range_scan b [] = False"
| "range_scan b (c # cs) =
     ((b \<and> startswith (c # cs) (ustr '' to '') \<and> drop 4 (c # cs) \<noteq> []) \<or> range_scan True cs)"

definition range_form :: "ustring \<Rightarrow> bool" where
  "range_form v = range_scan False v"



text \<open>\<open>str.lower\<close> on ASCII text, for the examples.\<close>

definition ascii_lower :: "ustring \<Rightarrow> ustring" where
  "ascii_lower s = map (\<lambda>c. if 65 \<le> c \<and> c \<le> 90 then c + 32 else c) s"

text \<open>A listing page on which no element is found but the hours table, with one row for Monday.\<close>

definition absent :: probe where
  "absent = \<lparr>count = Returns 0, content = Returns None\<rparr>"

definition monday_page :: "ustring \<Rightarrow> page" where
  "monday_page t =
     \<lparr>name_el = absent, address_el = absent, phone_el = absent, category_el = absent,
      rating_el = absent, review_el = absent, authority_el = absent,
      hours_el = \<lparr>first_count = Returns 1,
                  loop_rows = Returns [(Returns (Some (ustr ''Monday'')), Returns (Some t))]\<rparr>\<rparr>"


text \<open>
  The pattern \<open>^.+ to .+$\<close> as the specification of the hours fields states it: \<open>.\<close> is any
  character but the line feed (10), and \<open>$\<close> holds at the end of the text or before a
  line feed that ends it.
\<close>

fun regex_scan :: "bool \<Rightarrow> ustring \<Rightarrow> bool" where
  "regex_scan b [] = False"
| "regex_scan b (c # cs) =
     ((b \<and> startswith (c # cs) (ustr '' to '') \<and>
        (let y = drop 4 (c # cs)
         in y \<noteq> [] \<and> (10 \<notin> set y \<or> (last y = 10 \<and> butlast y \<noteq> [] \<and> 10 \<notin> set (butlast y)))))
      \<or> (c \<noteq> 10 \<and> regex_scan True cs))"

definition matches_range :: "ustring \<Rightarrow> bool" where
  "matches_range v = regex_scan False v"


text \<open>The fields of the record that hold a \<open>str\<close>.\<close>

definition string_fields :: "place \<Rightarrow> ustring list" where
  "string_fields p =
     [name p, address p, website p, phone_number p, category p, city p, zip_code p, country p,
      monday_hours p, tuesday_hours p, wednesday_hours p, thursday_hours p, friday_hours p,
      saturday_hours p, sunday_hours p, instagram_url p, facebook_url p, linkedin_url p, x_url p,
      listing_url p, source p]"

section \<open>Links as the specification of the sniffer describes them\<close>

text \<open>
  An https link to one of the hosts \<open>mids\<close>: the literal \<open>https://\<close>, a host text and a
  non-empty tail of path characters. \<open>first_link mids html m\<close>: \<open>m\<close> is such a link in
  \<open>html\<close>, no such link starts before it, and it runs as far as path characters go.
\<close>

definition is_link :: "ustring list \<Rightarrow> ustring \<Rightarrow> bool" where
  "is_link mids m \<longleftrightarrow>
     (\<exists>mid \<in> set mids. \<exists>tail. m = ustr ''https://'' @ mid @ tail \<and> tail \<noteq> [] \<and> list_all social_cls tail)"

definition no_link :: "ustring list \<Rightarrow> ustring \<Rightarrow> bool" where
  "no_link mids html \<longleftrightarrow> \<not> (\<exists>pre m post. html = pre @ m @ post \<and> is_link mids m)"

definition first_link :: "ustring list \<Rightarrow> ustring \<Rightarrow> ustring \<Rightarrow> bool" where
  "first_link mids html m \<longleftrightarrow>
     (\<exists>pre post. html = pre @ m @ post \<and> is_link mids m \<and>
        (post = [] \<or> \<not> social_cls (hd post)) \<and>
        \<not> (\<exists>pre' m' post'. html = pre' @ m' @ post' \<and> is_link mids m' \<and> length pre' < length pre))"

definition www_mids :: "ustring \<Rightarrow> ustring list" where
  "www_mids host = [ustr ''www.'' @ host, host]"

definition x_mids :: "ustring list" where
  "x_mids = [ustr ''twitter.com/'', ustr ''x.com/'']"

text \<open>
  For the proofs: the rests of the text at the positions where a match of a pattern can
  end, and a pattern that consumes exactly the words of a language.
\<close>

definition ends :: "rx \<Rightarrow> rpos \<Rightarrow> ustring set" where
  "ends r x = (\<lambda>y. fst (snd y)) ` set (r x)"

definition accepts :: "rx \<Rightarrow> ustring set \<Rightarrow> bool" where
  "accepts r L \<longleftrightarrow> (\<forall>p s g. ends r (p, s, g) = {s'. \<exists>w \<in> L. s = w @ s'})"

definition head_sat :: "(rpos \<Rightarrow> bool) \<Rightarrow> rx \<Rightarrow> bool" where
  "head_sat Q r \<longleftrightarrow> (\<forall>x. r x \<noteq> [] \<longrightarrow> Q (hd (r x)))"

definition link_lang :: "ustring list \<Rightarrow> ustring set" where
  "link_lang mids =
     {ustr ''https://'' @ mid @ tail |mid tail. mid \<in> set mids \<and> tail \<noteq> [] \<and> list_all social_cls tail}"

text \<open>What the sniffer may do to one field: leave it, or store the first link.\<close>

definition sniffed :: "ustring list \<Rightarrow> ustring \<Rightarrow> ustring \<Rightarrow> ustring \<Rightarrow> bool" where
  "sniffed mids html old new \<longleftrightarrow> (if no_link mids html then new = old else first_link mids html new)"

section \<open>The listing discovery loop\<close>

text \<open>
  \<open>go_to_next_results_page\<close> tries its selectors in order. An attempt finds no enabled
  button, raises somewhere (the handler goes on to the next selector), or clicks and sees
  the next results arrive; the function answers whether some attempt did the last.
\<close>

datatype attempt = NoButton | AttemptRaises | Clicked

fun go_to_next_results_page :: "attempt list \<Rightarrow> bool" where
  "go_to_next_results_page [] = False"
| "go_to_next_results_page (a # as) = (if a = Clicked then True else go_to_next_results_page as)"

text \<open>
  What the world answers in one turn of the \<open>while True\<close> loop: the stop flag as
  \<open>should_stop()\<close> reads it at the top, the \<open>href\<close> attributes read from the cards in
  order (\<open>None\<close> for a missing attribute; \<open>Raises\<close> when the browser raises during the
  scan, which nothing catches), and the selector attempts should the loop paginate.
\<close>

record round =
  stop_req :: bool
  cards :: "ustring option list py"
  pagination :: "attempt list"

text \<open>The \<open>for\<close> loop over the cards, with its \<open>break\<close> at the limit.\<close>

fun scan :: "int \<Rightarrow> ustring option list \<Rightarrow> ustring list \<Rightarrow> nat \<Rightarrow> ustring list \<times> nat" where
  "scan mx [] urls added = (urls, added)"
| "scan mx (h # hs) urls added =
     (case h of
        None \<Rightarrow> scan mx hs urls added
      | Some href \<Rightarrow>
          if href \<noteq> [] \<and> href \<notin> set urls then
            (if 0 < mx \<and> mx \<le> int (length (urls @ [href])) then (urls @ [href], added + 1)
             else scan mx hs (urls @ [href]) (added + 1))
          else scan mx hs urls added)"

datatype step = Done "ustring list" bool | Go "ustring list" nat | Crash

definition MAX_NO_NEW_ROUNDS :: nat where
  "MAX_NO_NEW_ROUNDS = 5"

text \<open>
  The rest of a turn after the scan, once in the branch for \<open>max_listings == 0\<close> and once
  in the branch below it; the source spells the same steps twice.
\<close>

definition stale_step :: "round \<Rightarrow> ustring list \<Rightarrow> nat \<Rightarrow> nat \<Rightarrow> step" where
  "stale_step r urls added no_new_rounds =
     (if added = 0 then
        (if MAX_NO_NEW_ROUNDS \<le> no_new_rounds + 1 then
           (if \<not> go_to_next_results_page (pagination r) then Done urls False else Go urls 0)
         else Go urls (no_new_rounds + 1))
      else Go urls 0)"

definition discovery_round :: "int \<Rightarrow> round \<Rightarrow> ustring list \<Rightarrow> nat \<Rightarrow> step" where
  "discovery_round mx r urls no_new_rounds =
     (if stop_req r then Done urls True
      else
        (case cards r of
           Raises \<Rightarrow> Crash
         | Returns hs \<Rightarrow>
             let (urls', added) = scan mx hs urls 0
             in if 0 < mx \<and> mx \<le> int (length urls') then Done urls' False
                else if mx = 0 then stale_step r urls' added no_new_rounds
                else stale_step r urls' added no_new_rounds))"

text \<open>
  The loop, with fuel: \<open>None\<close> when the fuel ends before the loop does. The result is the
  list of references and whether the loop ended on the stop flag.
\<close>

fun discover ::
  "nat \<Rightarrow> int \<Rightarrow> (nat \<Rightarrow> round) \<Rightarrow> nat \<Rightarrow> ustring list \<Rightarrow> nat \<Rightarrow> (ustring list \<times> bool) py option" where
  "discover 0 mx feed i urls no_new_rounds = None"
| "discover (Suc fuel) mx feed i urls no_new_rounds =
     (case discovery_round mx (feed i) urls no_new_rounds of
        Done u stopped \<Rightarrow> Some (Returns (u, stopped))
      | Crash \<Rightarrow> Some Raises
      | Go u n \<Rightarrow> discover fuel mx feed (Suc i) u n)"

definition listing_discovery ::
  "nat \<Rightarrow> int \<Rightarrow> (nat \<Rightarrow> round) \<Rightarrow> (ustring list \<times> bool) py option" where
  "listing_discovery fuel mx feed = discover fuel mx feed 0 [] 0"

section \<open>The references a feed exposes\<close>

text \<open>
  For the statements about discovery: the references of one round (the non-empty \<open>href\<close>s),
  and the duplicate-free sequence, in order of first appearance, of the references of the
  first \<open>k\<close> rounds.
\<close>

definition hrefs_of :: "round \<Rightarrow> ustring list" where
  "hrefs_of r =
     (case cards r of
        Raises \<Rightarrow> []
      | Returns hs \<Rightarrow> filter (\<lambda>h. h \<noteq> []) (map or_empty hs))"

fun collect :: "'a list \<Rightarrow> 'a list \<Rightarrow> 'a list" where
  "collect acc [] = acc"
| "collect acc (x # xs) = collect (if x \<in> set acc then acc else acc @ [x]) xs"

definition seen :: "(nat \<Rightarrow> round) \<Rightarrow> nat \<Rightarrow> ustring list" where
  "seen feed k = collect [] (concat (map (\<lambda>i. hrefs_of (feed i)) [0..<k]))"

definition adds_none :: "(nat \<Rightarrow> round) \<Rightarrow> nat \<Rightarrow> bool" where
  "adds_none feed j \<longleftrightarrow> set (hrefs_of (feed j)) \<subseteq> set (seen feed j)"

text \<open>
  The counter \<open>no_new_rounds\<close> as the loop holds it when scan \<open>i\<close> begins, as long as the loop
  has not ended: a scan with a new reference sets it to zero, a scan without one adds one,
  and when that makes \<open>MAX_NO_NEW_ROUNDS\<close> the loop paginates and, going on, sets it to
  zero. \<open>attempts_page feed i\<close>: scan \<open>i\<close> is one after which the loop calls
  \<open>go_to_next_results_page\<close>.
\<close>

fun stale_before :: "(nat \<Rightarrow> round) \<Rightarrow> nat \<Rightarrow> nat" where
  "stale_before feed 0 = 0"
| "stale_before feed (Suc i) =
     (if adds_none feed i \<and> stale_before feed i + 1 < MAX_NO_NEW_ROUNDS
      then stale_before feed i + 1 else 0)"

definition attempts_page :: "(nat \<Rightarrow> round) \<Rightarrow> nat \<Rightarrow> bool" where
  "attempts_page feed i \<longleftrightarrow> adds_none feed i \<and> MAX_NO_NEW_ROUNDS \<le> stale_before feed i + 1"

text \<open>Example feeds: rounds without a stop request and without a next-page button.\<close>

definition quiet :: "ustring option list \<Rightarrow> round" where
  "quiet hs = \<lparr>stop_req = False, cards = Returns hs,
                pagination = [NoButton, NoButton, NoButton, NoButton]\<rparr>"

definition place_a :: ustring where "place_a = ustr ''/maps/place/A''"
definition place_b :: ustring where "place_b = ustr ''/maps/place/B''"
definition place_c :: ustring where "place_c = ustr ''/maps/place/C''"

text \<open>A feed that shows nothing in its first five scans and one listing from the sixth on.\<close>

definition slow_feed :: "nat \<Rightarrow> round" where
  "slow_feed i = (if i < 5 then quiet [] else quiet [Some place_a])"

text \<open>A feed that shows one listing twice and then three.\<close>

definition grow_feed :: "nat \<Rightarrow> round" where
  "grow_feed i = (if i < 2 then quiet [Some place_a]
                  else quiet [Some place_a, None, Some place_b, Some place_a, Some place_c])"

text \<open>
  A feed with a second page: one listing in the first scan, nothing new in the five scans
  after it, a next-page button that the third selector clicks after the fifth of them,
  nothing new in two more scans, and a second listing in the ninth scan.
\<close>

definition paged_feed :: "nat \<Rightarrow> round" where
  "paged_feed i =
     (if i = 5 then \<lparr>stop_req = False, cards = Returns [Some place_a],
                       pagination = [NoButton, AttemptRaises, Clicked]\<rparr>
      else if i < 8 then quiet [Some place_a]
      else quiet [Some place_a, Some place_b])"


section \<open>The orchestrator\<close>

text \<open>
  The stop flag is the session's \<open>stop\<close> entry: the Stop button sets it, \<open>should_stop()\<close>
  reads it. What the world answers while one listing is processed: whether
  \<open>page.goto(link)\<close> or the wait after it raises (nothing catches that), the page then
  shown, and whether Stop was pressed before the first poll after the extraction, or
  between that poll and the second.
\<close>

record visit =
  goto_raises :: bool
  shown :: page
  press_first :: bool
  press_second :: bool

text \<open>
  The \<open>for\<close> loop over the collected references; \<open>k\<close> is the position of the next link,
  \<open>idx = k + 1\<close> its number. The result is the list of records and the flag at the end.
\<close>

fun scrape_listings ::
  "(ustring \<Rightarrow> ustring) \<Rightarrow> (ustring \<Rightarrow> (int \<times> ustring) py) \<Rightarrow> ustring \<Rightarrow> int \<Rightarrow> (nat \<Rightarrow> visit) \<Rightarrow>
   nat \<Rightarrow> ustring list \<Rightarrow> bool \<Rightarrow> place list \<Rightarrow> (place list \<times> bool) py" where
  "scrape_listings lower fetch user_input mx visits k [] flag places = Returns (places, flag)"
| "scrape_listings lower fetch user_input mx visits k (link # rest) flag places =
     (if 0 < mx \<and> mx < int k + 1 then Returns (places, flag)
      else if goto_raises (visits k) then Raises
      else
        let place = extract_place lower fetch (shown (visits k)) user_input (int k + 1) link;
            places' = places @ [place];
            flag1 = (flag \<or> press_first (visits k))
        in if flag1 then Returns (places', flag1)
           else
             let flag2 = (flag1 \<or> press_second (visits k))
             in if flag2 then Returns (places', flag2)
                else scrape_listings lower fetch user_input mx visits (Suc k) rest flag2 places')"

text \<open>
  The lines between the two loops: \<open>if st.session_state.get("stop", False):
  st.session_state.stop = False\<close>.
\<close>

definition clear_stop :: "bool \<Rightarrow> bool" where
  "clear_stop flag = (if flag then False else flag)"

text \<open>
  The address the browser is sent to: the input itself when it holds \<open>http\<close>, otherwise
  the search address built from it. \<open>quote\<close> stands for \<open>urllib.parse.quote\<close>, which raises
  for a text it cannot encode (a lone surrogate); no handler stands around the call.
\<close>

definition start_url :: "(ustring \<Rightarrow> ustring py) \<Rightarrow> ustring \<Rightarrow> ustring py" where
  "start_url quote user_input =
     (if \<not> contains user_input (ustr ''http'') then
        (case quote user_input of
           Raises \<Rightarrow> Raises
         | Returns q \<Rightarrow> Returns (ustr ''https://www.google.com/maps/search/'' @ q))
      else Returns user_input)"

text \<open>
  The world of one run: whether the browser is launched and gives a page, whether
  \<open>page.goto(url)\<close> and the wait after it return for the address \<open>url\<close>, the feed of the
  discovery loop, whether Stop was pressed after that loop's last poll, the visits of the
  extraction loop, and whether \<open>browser.close()\<close> returns. A raise of the first, the second
  or the last is caught nowhere in the function.
\<close>

record world =
  launches :: bool
  opens :: "ustring \<Rightarrow> bool"
  w_feed :: "nat \<Rightarrow> round"
  late_press :: bool
  w_visits :: "nat \<Rightarrow> visit"
  closes :: bool

text \<open>
  The function, in the order of the source: the file name (\<open>urlparse\<close> may raise), the
  launch, the address (\<open>quote\<close> may raise), the first navigation, the discovery loop, the
  lines that clear the flag, the extraction loop, \<open>browser.close()\<close>. \<open>None\<close> is the
  discovery loop out of fuel.
\<close>

definition scrape_places_streamlit ::
  "nat \<Rightarrow> (ustring \<Rightarrow> ustring) \<Rightarrow> (ustring \<Rightarrow> (int \<times> ustring) py) \<Rightarrow>
   (ustring \<Rightarrow> ustring option py) \<Rightarrow> (ustring \<Rightarrow> ustring) \<Rightarrow> (ustring \<Rightarrow> ustring py) \<Rightarrow>
   world \<Rightarrow> ustring \<Rightarrow> int \<Rightarrow> (place list \<times> ustring) py option" where
  "scrape_places_streamlit fuel lower fetch query_q unquote quote w user_input mx =
     (case output_filename query_q unquote user_input of
        Raises \<Rightarrow> Some Raises
      | Returns fname \<Rightarrow>
          if \<not> launches w then Some Raises
          else
            (case start_url quote user_input of
               Raises \<Rightarrow> Some Raises
             | Returns url \<Rightarrow>
                 if \<not> opens w url then Some Raises
                 else
                   (case listing_discovery fuel mx (w_feed w) of
                      None \<Rightarrow> None
                    | Some Raises \<Rightarrow> Some Raises
                    | Some (Returns (urls, stopped)) \<Rightarrow>
                        (case scrape_listings lower fetch user_input mx (w_visits w) 0 urls
                                (clear_stop (stopped \<or> late_press w)) [] of
                           Raises \<Rightarrow> Some Raises
                         | Returns (places, flag) \<Rightarrow>
                             if closes w then Some (Returns (places, fname))
                             else Some Raises))))"

text \<open>The records of the first \<open>n\<close> listings, each the value of \<open>extract_place\<close> on its page.\<close>

definition records_of ::
  "(ustring \<Rightarrow> ustring) \<Rightarrow> (ustring \<Rightarrow> (int \<times> ustring) py) \<Rightarrow> ustring \<Rightarrow> (nat \<Rightarrow> visit) \<Rightarrow>
   ustring list \<Rightarrow> nat \<Rightarrow> place list" where
  "records_of lower fetch user_input visits urls n =
     map (\<lambda>i. extract_place lower fetch (shown (visits i)) user_input (int i + 1) (urls ! i)) [0..<n]"

text \<open>
  Example answers of \<open>urllib.parse\<close>: an address without a query, and a \<open>urlparse\<close> that
  rejects the unclosed bracket of \<open>http://[\<close> as the library does; \<open>quote\<close> on a text of
  unreserved ASCII characters returns it unchanged.
\<close>

definition no_query :: "ustring \<Rightarrow> ustring option py" where
  "no_query u = (if u = ustr ''http://['' then Raises else Returns None)"

definition quote_plain :: "ustring \<Rightarrow> ustring py" where
  "quote_plain u = Returns u"

text \<open>Example worlds for the orchestrator.\<close>

definition calm_visit :: visit where
  "calm_visit = \<lparr>goto_raises = False, shown = monday_page (ustr ''9 AM''),
                  press_first = False, press_second = False\<rparr>"

definition stop_feed :: "nat \<Rightarrow> round" where
  "stop_feed i = (if i = 0 then quiet [Some place_a, Some place_b]
                  else \<lparr>stop_req = True, cards = Returns [Some place_c], pagination = []\<rparr>)"

text \<open>Stop is pressed while the second listing is extracted.\<close>

definition stop_second_world :: world where
  "stop_second_world =
     \<lparr>launches = True, opens = (\<lambda>url. True), w_feed = grow_feed, late_press = False,
      w_visits = (\<lambda>i. if i = 1 then calm_visit\<lparr>press_first := True\<rparr> else calm_visit),
      closes = True\<rparr>"

text \<open>Stop is pressed during discovery and not again.\<close>

definition stop_early_world :: world where
  "stop_early_world =
     \<lparr>launches = True, opens = (\<lambda>url. True), w_feed = stop_feed, late_press = False,
      w_visits = (\<lambda>i. calm_visit), closes = True\<rparr>"

text \<open>Stop is pressed during discovery and again before the extraction loop polls.\<close>

definition stop_twice_world :: world where
  "stop_twice_world =
     \<lparr>launches = True, opens = (\<lambda>url. True), w_feed = stop_feed, late_press = True,
      w_visits = (\<lambda>i. calm_visit\<lparr>press_first := True\<rparr>), closes = True\<rparr>"

section \<open>Facts about strings\<close>

lemma set_strip_where: "set (strip_where P s) \<subseteq> set s"
proof -
  have "set (strip_where P s) \<subseteq> set (rev (dropWhile P s))"
    unfolding strip_where_def by (metis set_dropWhileD set_rev subsetI)
  also have "\<dots> \<subseteq> set s"
    by (auto dest: set_dropWhileD)
  finally show ?thesis .
qed

lemma set_sub_runs: "set (sub_runs P r s) \<subseteq> set r \<union> {c \<in> set s. \<not> P c}"
proof (induction P r s rule: sub_runs.induct)
  case (1 P r)
  show ?case by simp
next
  case (2 P r c cs)
  show ?case
  proof (cases "P c")
    case True
    with 2 have "set (sub_runs P r (dropWhile P cs)) \<subseteq> set r \<union> {c \<in> set (dropWhile P cs). \<not> P c}"
      by simp
    moreover have "set (dropWhile P cs) \<subseteq> set cs"
      by (auto dest: set_dropWhileD)
    ultimately show ?thesis using True by auto
  next
    case False
    with 2 show ?thesis by auto
  qed
qed

lemma sanitize_filename_kept: "c \<in> set (sanitize_filename nm) \<Longrightarrow> fname_kept c"
proof -
  have a: "set (ustr ''_'') = {95}" "fname_kept 95"
    by (simp_all add: ustr_def fname_kept_def)
  have r: "\<forall>c \<in> set (ustr ''results''). fname_kept c"
    by (simp add: ustr_def fname_kept_def)
  assume c: "c \<in> set (sanitize_filename nm)"
  show ?thesis
  proof (cases "strip_chars (ustr ''_'') (sub_runs (\<lambda>c. \<not> fname_kept c) (ustr ''_'') nm) = []")
    case True
    with c r show ?thesis by (simp add: sanitize_filename_def)
  next
    case False
    with c have "c \<in> set (sub_runs (\<lambda>c. \<not> fname_kept c) (ustr ''_'') nm)"
      using set_strip_where by (auto simp: sanitize_filename_def strip_chars_def)
    then show ?thesis using set_sub_runs a by fastforce
  qed
qed

lemma sanitize_filename_nonempty: "sanitize_filename nm \<noteq> []"
  by (simp add: sanitize_filename_def Let_def ustr_def)

lemma sanitize_filename_default:
  "strip_chars (ustr ''_'') (sub_runs (\<lambda>c. \<not> fname_kept c) (ustr ''_'') nm) = [] \<Longrightarrow>
   sanitize_filename nm = ustr ''results''"
  by (simp add: sanitize_filename_def)

lemma rx_search_cls_None:
  "rx_search_from (rx_cls P) p s = None \<longleftrightarrow> \<not> list_ex P s"
  by (induction s arbitrary: p) (auto simp: rx_cls_def)

lemma address_parts_nonempty: "p \<in> set (address_parts a) \<Longrightarrow> p \<noteq> []"
  by (auto simp: address_parts_def Let_def)

lemma address_parts_example:
  "address_parts (ustr ''Karachi 75500, Pakistan'') = [ustr ''Karachi 75500'', ustr ''Pakistan'']"
  by (simp add: address_parts_def ustr_def strip_def strip_where_def py_isspace_def)

section \<open>Facts about the hours parser\<close>

lemma startswith_iff: "startswith s p \<longleftrightarrow> (\<exists>b. s = p @ b)"
  unfolding startswith_def
  by (metis append_eq_conv_conj append_take_drop_id)

lemma contains_iff: "contains s sub \<longleftrightarrow> (\<exists>a b. s = a @ sub @ b)"
proof (induction s)
  case Nil
  show ?case by auto
next
  case (Cons c cs)
  show ?case
  proof
    assume "contains (c # cs) sub"
    then consider "startswith (c # cs) sub" | "contains cs sub" by auto
    then show "\<exists>a b. c # cs = a @ sub @ b"
    proof cases
      case 1
      then obtain b where "c # cs = sub @ b" by (auto simp: startswith_iff)
      then have "c # cs = [] @ sub @ b" by simp
      then show ?thesis by blast
    next
      case 2
      with Cons obtain a b where "cs = a @ sub @ b" by auto
      then have "c # cs = (c # a) @ sub @ b" by simp
      then show ?thesis by blast
    qed
  next
    assume "\<exists>a b. c # cs = a @ sub @ b"
    then obtain a b where ab: "c # cs = a @ sub @ b" by auto
    show "contains (c # cs) sub"
    proof (cases a)
      case Nil
      with ab have "startswith (c # cs) sub" by (auto simp: startswith_iff)
      then show ?thesis by simp
    next
      case (Cons a1 as)
      with ab have "cs = as @ sub @ b" by simp
      with Cons.IH have "contains cs sub" by blast
      then show ?thesis by simp
    qed
  qed
qed

























lemma range_scan_regex: "range_scan b v \<Longrightarrow> 10 \<notin> set v \<Longrightarrow> regex_scan b v"
  by (induction v arbitrary: b) (auto simp: Let_def dest: in_set_dropD)

lemma range_form_regex: "range_form v \<Longrightarrow> 10 \<notin> set v \<Longrightarrow> matches_range v"
  by (simp add: range_form_def matches_range_def range_scan_regex)

lemma strip_Nil: "strip [] = []"
  by (simp add: strip_def strip_where_def)

lemma norm_field_nonempty: "strip (norm_field v) \<noteq> []"
  by (simp add: norm_field_def dash_def ustr_def strip_def strip_where_def py_isspace_def)

lemma string_fields_normalize:
  "string_fields (normalize_place p) = map norm_field (string_fields p)"
  by (simp add: string_fields_def normalize_place_def)

lemma absent_page_fields:
  "string_fields (extract_place ascii_lower (\<lambda>u. Raises) (monday_page (ustr ''9 AM''))
      (ustr ''cafe'') 1 (ustr ''https://www.google.com/maps/place/X'')) =
   [dash, dash, dash, dash, dash, dash, dash, dash, ustr ''9 AM'', dash, dash, dash, dash, dash, dash,
    dash, dash, dash, dash, ustr ''https://www.google.com/maps/place/X'', ustr ''cafe'']"
  by (simp add: string_fields_def extract_place_def normalize_place_def populate_def Let_def monday_page_def absent_def
      extract_text_def website_of_def parse_weekly_hours_def init_hours_def day_map_def
      hours_row_def or_empty_def hours_text_def ascii_lower_def norm_field_def new_place_def
      strip_def strip_where_def py_isspace_def startswith_def ustr_def dash_def)

section \<open>Facts about the matcher\<close>


lemma accepts_eps: "accepts rx_eps {[]}"
  by (auto simp: accepts_def ends_def rx_eps_def)

lemma accepts_cls: "accepts (rx_cls P) {[c] |c. P c}"
  by (auto simp: accepts_def ends_def rx_cls_def split: list.splits)

lemma accepts_alt: "accepts a A \<Longrightarrow> accepts b B \<Longrightarrow> accepts (rx_alt a b) (A \<union> B)"
  unfolding accepts_def ends_def rx_alt_def by (auto simp: image_Un)

lemma ends_seq: "ends (rx_seq a b) x = (\<Union>y \<in> set (a x). ends b y)"
  by (auto simp: ends_def rx_seq_def)

lemma accepts_seq:
  assumes "accepts a A" and "accepts b B"
  shows "accepts (rx_seq a b) {u @ v |u v. u \<in> A \<and> v \<in> B}"
  unfolding accepts_def
proof (intro allI)
  fix p s g
  have "ends (rx_seq a b) (p, s, g) = (\<Union>y \<in> set (a (p, s, g)). ends b y)"
    by (rule ends_seq)
  also have "\<dots> = (\<Union>y \<in> set (a (p, s, g)). {s'. \<exists>v \<in> B. fst (snd y) = v @ s'})"
    using assms(2) by (auto simp: accepts_def)
  also have "\<dots> = (\<Union>s1 \<in> ends a (p, s, g). {s'. \<exists>v \<in> B. s1 = v @ s'})"
    by (auto simp: ends_def)
  also have "\<dots> = {s'. \<exists>w \<in> {u @ v |u v. u \<in> A \<and> v \<in> B}. s = w @ s'}"
    using assms(1) unfolding accepts_def by auto (metis append.assoc)+
  finally show "ends (rx_seq a b) (p, s, g) = {s'. \<exists>w \<in> {u @ v |u v. u \<in> A \<and> v \<in> B}. s = w @ s'}" .
qed


lemma accepts_cong: "accepts r A \<Longrightarrow> A = B \<Longrightarrow> accepts r B"
  by simp

lemma accepts_lit: "accepts (rx_lit l) {l}"
proof (induction l)
  case Nil
  show ?case by (simp add: accepts_eps)
next
  case (Cons c l)
  have "accepts (rx_seq (rx_cls (\<lambda>d. d = c)) (rx_lit l))
          {u @ v |u v. u \<in> {[d] |d. d = c} \<and> v \<in> {l}}"
    by (rule accepts_seq[OF accepts_cls Cons.IH])
  then have "accepts (rx_lit (c # l)) {u @ v |u v. u \<in> {[d] |d. d = c} \<and> v \<in> {l}}"
    by simp
  moreover have "{u @ v |u v. u \<in> {[d] |d. d = c} \<and> v \<in> {l}} = {c # l}"
    by auto
  ultimately show ?case by simp
qed

lemma many_from_rests:
  "(\<lambda>y. fst (snd y)) ` set (rx_many_from P p s g) =
     {s'. \<exists>w. w \<noteq> [] \<and> list_all P w \<and> s = w @ s'}"
proof (induction s arbitrary: p)
  case Nil
  show ?case by auto
next
  case (Cons c cs)
  show ?case
  proof (cases "P c")
    case False
    have "\<And>w s'. w \<noteq> [] \<Longrightarrow> list_all P w \<Longrightarrow> c # cs = w @ s' \<Longrightarrow> False"
    proof -
      fix w s' assume "w \<noteq> []" "list_all P w" "c # cs = w @ s'"
      then have "P c" by (cases w) auto
      with False show False by simp
    qed
    with False show ?thesis by auto
  next
    case True
    have "{s'. \<exists>w. w \<noteq> [] \<and> list_all P w \<and> c # cs = w @ s'} =
          insert cs {s'. \<exists>w. w \<noteq> [] \<and> list_all P w \<and> cs = w @ s'}" (is "?L = ?R")
    proof
      show "?L \<subseteq> ?R"
      proof
        fix s' assume "s' \<in> ?L"
        then obtain w where w: "w \<noteq> []" "list_all P w" "c # cs = w @ s'" by auto
        then obtain w' where w': "w = c # w'" by (cases w) auto
        show "s' \<in> ?R"
        proof (cases w')
          case Nil
          with w w' show ?thesis by simp
        next
          case (Cons a as)
          with w w' have "w' \<noteq> []" "list_all P w'" "cs = w' @ s'" by auto
          then show ?thesis by blast
        qed
      qed
      show "?R \<subseteq> ?L"
      proof
        fix s' assume "s' \<in> ?R"
        then consider "s' = cs" | w where "w \<noteq> []" "list_all P w" "cs = w @ s'" by auto
        then show "s' \<in> ?L"
        proof cases
          case 1
          then have "[c] \<noteq> [] \<and> list_all P [c] \<and> c # cs = [c] @ s'" using True by simp
          then show ?thesis by blast
        next
          case 2
          then have "c # w \<noteq> [] \<and> list_all P (c # w) \<and> c # cs = (c # w) @ s'" using True by simp
          then show ?thesis by blast
        qed
      qed
    qed
    with True Cons.IH[of "Some c"] show ?thesis by (simp add: image_Un)
  qed
qed

lemma accepts_many1: "accepts (rx_many1 P) {w. w \<noteq> [] \<and> list_all P w}"
  unfolding accepts_def ends_def rx_many1_def by (auto simp: many_from_rests)


lemma is_link_lang: "is_link mids m \<longleftrightarrow> m \<in> link_lang mids"
  by (auto simp: is_link_def link_lang_def)

lemma many_from_Nil: "rx_many_from P p s g = [] \<longleftrightarrow> s = [] \<or> \<not> P (hd s)"
  by (cases s) auto

lemma many_from_hd:
  "rx_many_from P p s g \<noteq> [] \<Longrightarrow> fst (snd (hd (rx_many_from P p s g))) = dropWhile P s"
proof (induction s arbitrary: p)
  case Nil
  then show ?case by simp
next
  case (Cons c cs)
  then have c: "P c" by (auto split: if_splits)
  show ?case
  proof (cases "rx_many_from P (Some c) cs g = []")
    case True
    then have "cs = [] \<or> \<not> P (hd cs)" by (simp add: many_from_Nil)
    then have "dropWhile P cs = cs" by (cases cs) auto
    with True c show ?thesis by simp
  next
    case False
    with Cons.IH[OF False] c show ?thesis by simp
  qed
qed

lemma head_sat_many1:
  "head_sat (\<lambda>y. fst (snd y) = [] \<or> \<not> P (hd (fst (snd y)))) (rx_many1 P)"
  unfolding head_sat_def rx_many1_def
proof (intro allI impI)
  fix x :: rpos
  obtain p s g where x: "x = (p, s, g)" by (cases x) auto
  assume "(case x of (p, s, g) \<Rightarrow> rx_many_from P p s g) \<noteq> []"
  then have ne: "rx_many_from P p s g \<noteq> []" by (simp add: x)
  have "dropWhile P s = [] \<or> \<not> P (hd (dropWhile P s))"
    using hd_dropWhile by blast
  then show "fst (snd (hd (case x of (p, s, g) \<Rightarrow> rx_many_from P p s g))) = [] \<or>
        \<not> P (hd (fst (snd (hd (case x of (p, s, g) \<Rightarrow> rx_many_from P p s g)))))"
    using many_from_hd[OF ne] by (simp add: x)
qed

lemma hd_concat_map:
  "concat (map f xs) \<noteq> [] \<Longrightarrow> \<exists>x \<in> set xs. f x \<noteq> [] \<and> hd (concat (map f xs)) = hd (f x)"
proof (induction xs)
  case Nil
  then show ?case by simp
next
  case (Cons a xs)
  show ?case
  proof (cases "f a = []")
    case True
    with Cons.prems have "concat (map f xs) \<noteq> []" by simp
    from Cons.IH[OF this] True show ?thesis by auto
  next
    case False
    then show ?thesis by auto
  qed
qed

lemma head_sat_seq: "head_sat Q b \<Longrightarrow> head_sat Q (rx_seq a b)"
  unfolding head_sat_def rx_seq_def using hd_concat_map by metis

lemma accepts_www: "accepts (www_rx host) (link_lang (www_mids host))"
proof -
  let ?T = "{w. w \<noteq> [] \<and> list_all social_cls w}"
  let ?H = "{u @ v |u v. u \<in> {host} \<and> v \<in> ?T}"
  let ?W = "{u @ v |u v. u \<in> {ustr ''www.''} \<union> {[]} \<and> v \<in> ?H}"
  let ?L = "{u @ v |u v. u \<in> {ustr ''https://''} \<and> v \<in> ?W}"
  have 1: "accepts (rx_seq (rx_lit host) (rx_many1 social_cls)) ?H"
    by (rule accepts_seq[OF accepts_lit accepts_many1])
  have 2: "accepts (rx_opt (rx_lit (ustr ''www.''))) ({ustr ''www.''} \<union> {[]})"
    unfolding rx_opt_def by (rule accepts_alt[OF accepts_lit accepts_eps])
  have 3: "accepts (www_rx host) ?L"
    unfolding www_rx_def by (rule accepts_seq[OF accepts_lit accepts_seq[OF 2 1]])
  have "?L = link_lang (www_mids host)"
  proof (intro equalityI subsetI)
    fix m assume "m \<in> ?L"
    then obtain u t where ut: "u = ustr ''www.'' \<or> u = []" "t \<noteq> []" "list_all social_cls t"
      "m = ustr ''https://'' @ u @ host @ t" by auto
    then have "m = ustr ''https://'' @ (u @ host) @ t" "u @ host \<in> set (www_mids host)"
      by (auto simp: www_mids_def)
    with ut(2,3) show "m \<in> link_lang (www_mids host)" unfolding link_lang_def by blast
  next
    fix m assume "m \<in> link_lang (www_mids host)"
    then obtain mid t where mt: "mid \<in> set (www_mids host)" "t \<noteq> []" "list_all social_cls t"
      "m = ustr ''https://'' @ mid @ t" unfolding link_lang_def by auto
    then obtain u where u: "u = ustr ''www.'' \<or> u = []" "mid = u @ host"
      by (auto simp: www_mids_def)
    have "host @ t \<in> ?H" using mt(2,3) by blast
    with u(1) have "u @ host @ t \<in> ?W" by blast
    with mt(4) u(2) show "m \<in> ?L" by auto
  qed
  with 3 show ?thesis by simp
qed

lemma accepts_x: "accepts x_rx (link_lang x_mids)"
proof -
  let ?T = "{w. w \<noteq> [] \<and> list_all social_cls w}"
  let ?H = "{u @ v |u v. u \<in> {ustr ''.com/''} \<and> v \<in> ?T}"
  let ?W = "{u @ v |u v. u \<in> {ustr ''twitter''} \<union> {ustr ''x''} \<and> v \<in> ?H}"
  let ?L = "{u @ v |u v. u \<in> {ustr ''https://''} \<and> v \<in> ?W}"
  have 1: "accepts (rx_seq (rx_lit (ustr ''.com/'')) (rx_many1 social_cls)) ?H"
    by (rule accepts_seq[OF accepts_lit accepts_many1])
  have 2: "accepts (rx_alt (rx_lit (ustr ''twitter'')) (rx_lit (ustr ''x''))) ({ustr ''twitter''} \<union> {ustr ''x''})"
    by (rule accepts_alt[OF accepts_lit accepts_lit])
  have 3: "accepts x_rx ?L"
    unfolding x_rx_def by (rule accepts_seq[OF accepts_lit accepts_seq[OF 2 1]])
  have tw: "ustr ''twitter'' @ ustr ''.com/'' = ustr ''twitter.com/''"
    and xc: "ustr ''x'' @ ustr ''.com/'' = ustr ''x.com/''"
    by (simp_all add: ustr_def)
  have "?L = link_lang x_mids"
  proof (intro equalityI subsetI)
    fix m assume "m \<in> ?L"
    then obtain u t where ut: "u = ustr ''twitter'' \<or> u = ustr ''x''" "t \<noteq> []" "list_all social_cls t"
      "m = ustr ''https://'' @ u @ ustr ''.com/'' @ t" by auto
    then have "m = ustr ''https://'' @ (u @ ustr ''.com/'') @ t" "u @ ustr ''.com/'' \<in> set x_mids"
      using tw xc by (auto simp: x_mids_def)
    with ut(2,3) show "m \<in> link_lang x_mids" unfolding link_lang_def by blast
  next
    fix m assume "m \<in> link_lang x_mids"
    then obtain mid t where mt: "mid \<in> set x_mids" "t \<noteq> []" "list_all social_cls t"
      "m = ustr ''https://'' @ mid @ t" unfolding link_lang_def by auto
    from mt(1) have "mid = ustr ''twitter'' @ ustr ''.com/'' \<or> mid = ustr ''x'' @ ustr ''.com/''"
      unfolding tw xc by (simp add: x_mids_def)
    then obtain u where u: "u = ustr ''twitter'' \<or> u = ustr ''x''" "mid = u @ ustr ''.com/''"
      by blast
    have "ustr ''.com/'' @ t \<in> ?H" using mt(2,3) by blast
    with u(1) have "u @ ustr ''.com/'' @ t \<in> ?W" by blast
    with mt(4) u(2) show "m \<in> ?L" by auto
  qed
  with 3 show ?thesis by simp
qed

lemma greedy_www:
  "head_sat (\<lambda>y. fst (snd y) = [] \<or> \<not> social_cls (hd (fst (snd y)))) (www_rx host)"
  unfolding www_rx_def by (intro head_sat_seq head_sat_many1)

lemma greedy_x:
  "head_sat (\<lambda>y. fst (snd y) = [] \<or> \<not> social_cls (hd (fst (snd y)))) x_rx"
  unfolding x_rx_def by (intro head_sat_seq head_sat_many1)


lemma accepts_nonempty: "accepts r L \<Longrightarrow> w \<in> L \<Longrightarrow> r (p, w @ post, g) \<noteq> []"
proof -
  assume a: "accepts r L" and w: "w \<in> L"
  then have "post \<in> ends r (p, w @ post, g)" unfolding accepts_def by blast
  then show ?thesis by (auto simp: ends_def)
qed

lemma accepts_member:
  "accepts r L \<Longrightarrow> y \<in> set (r (p, s, g)) \<Longrightarrow> \<exists>w \<in> L. s = w @ fst (snd y)"
proof -
  assume a: "accepts r L" and y: "y \<in> set (r (p, s, g))"
  then have "fst (snd y) \<in> ends r (p, s, g)" by (auto simp: ends_def)
  with a show ?thesis unfolding accepts_def by blast
qed

lemma search_None_accepts:
  assumes "accepts r L"
  shows "rx_search_from r p s = None \<Longrightarrow> s = pre @ w @ post \<Longrightarrow> w \<in> L \<Longrightarrow> False"
proof (induction s arbitrary: p pre)
  case Nil
  then have "r (p, w @ post, []) = []" by (auto split: list.splits)
  with accepts_nonempty[OF assms Nil(3)] show ?case by blast
next
  case (Cons c cs)
  from Cons.prems(1) have e: "r (p, c # cs, []) = []" and n: "rx_search_from r (Some c) cs = None"
    by (auto split: list.splits)
  show ?case
  proof (cases pre)
    case Nil
    with Cons.prems(2) e have "r (p, w @ post, []) = []" by simp
    with accepts_nonempty[OF assms Cons.prems(3)] show ?thesis by blast
  next
    case (Cons a pre')
    with Cons.prems(2) have "cs = pre' @ w @ post" by simp
    from Cons.IH[OF n this Cons.prems(3)] show ?thesis .
  qed
qed

lemma search_Some_accepts:
  assumes "accepts r L"
  shows "rx_search_from r p s = Some (m, g) \<Longrightarrow>
    \<exists>pre post q. s = pre @ m @ post \<and> m \<in> L \<and> r (q, m @ post, []) \<noteq> [] \<and>
       fst (snd (hd (r (q, m @ post, [])))) = post \<and>
       (\<forall>pre1 w post1. s = pre1 @ w @ post1 \<longrightarrow> w \<in> L \<longrightarrow> length pre \<le> length pre1)"
proof (induction s arbitrary: p)
  case Nil
  then obtain y ys where y: "r (p, [], []) = y # ys" and m: "m = []"
    by (auto split: list.splits)
  then have "y \<in> set (r (p, [], []))" by simp
  from accepts_member[OF assms this] obtain w where w: "w \<in> L" "[] = w @ fst (snd y)" by blast
  then have mL: "m \<in> L" and y0: "fst (snd y) = []" using m by auto
  show ?case
  proof (rule exI[of _ "[]"], rule exI[of _ "[]"], rule exI[of _ p], intro conjI)
    show "[] = [] @ m @ []" by (simp add: m)
    show "m \<in> L" by (rule mL)
    show "r (p, m @ [], []) \<noteq> []" by (simp add: m y)
    show "fst (snd (hd (r (p, m @ [], [])))) = []" by (simp add: m y y0)
    show "\<forall>pre1 w post1. [] = pre1 @ w @ post1 \<longrightarrow> w \<in> L \<longrightarrow> length ([]::ustring) \<le> length pre1"
      by simp
  qed
next
  case (Cons c cs)
  show ?case
  proof (cases "r (p, c # cs, []) = []")
    case False
    then obtain y ys where y: "r (p, c # cs, []) = y # ys" by (cases "r (p, c # cs, [])") auto
    obtain y1 y2 y3 where yt: "y = (y1, y2, y3)" by (cases y) auto
    from Cons.prems have m: "m = take (length (c # cs) - length y2) (c # cs)"
      by (simp add: y yt)
    have "y \<in> set (r (p, c # cs, []))" by (simp add: y)
    from accepts_member[OF assms this] obtain w where w: "w \<in> L" "c # cs = w @ y2"
      by (auto simp: yt)
    have "m = take (length (w @ y2) - length y2) (w @ y2)"
      using m w(2) by simp
    then have mw: "m = w" by simp
    show ?thesis
    proof (rule exI[of _ "[]"], rule exI[of _ y2], rule exI[of _ p], intro conjI)
      show "c # cs = [] @ m @ y2" by (simp add: mw w(2))
      show "m \<in> L" by (simp add: mw w(1))
      have e: "m @ y2 = c # cs" by (simp add: mw w(2))
      show "r (p, m @ y2, []) \<noteq> []" by (simp add: e y)
      show "fst (snd (hd (r (p, m @ y2, [])))) = y2" by (simp add: e y yt)
      show "\<forall>pre1 w post1. c # cs = pre1 @ w @ post1 \<longrightarrow> w \<in> L \<longrightarrow> length ([]::ustring) \<le> length pre1"
        by simp
    qed
  next
    case True
    with Cons.prems have "rx_search_from r (Some c) cs = Some (m, g)" by simp
    from Cons.IH[OF this] obtain pre post q where
      h: "cs = pre @ m @ post" "m \<in> L" "r (q, m @ post, []) \<noteq> []"
         "fst (snd (hd (r (q, m @ post, [])))) = post"
         "\<forall>pre1 w post1. cs = pre1 @ w @ post1 \<longrightarrow> w \<in> L \<longrightarrow> length pre \<le> length pre1"
      by blast
    have first: "\<forall>pre1 w post1. c # cs = pre1 @ w @ post1 \<longrightarrow> w \<in> L \<longrightarrow> length (c # pre) \<le> length pre1"
    proof (intro allI impI)
      fix pre1 w post1
      assume e: "c # cs = pre1 @ w @ post1" and w: "w \<in> L"
      show "length (c # pre) \<le> length pre1"
      proof (cases pre1)
        case Nil
        with e have "c # cs = w @ post1" by simp
        then have "r (p, c # cs, []) \<noteq> []" using accepts_nonempty[OF assms w] by simp
        with True show ?thesis by simp
      next
        case (Cons a pre1')
        with e have "cs = pre1' @ w @ post1" by simp
        from h(5)[rule_format, OF this w] have "length pre \<le> length pre1'" .
        with Cons show ?thesis by simp
      qed
    qed
    show ?thesis
    proof (rule exI[of _ "c # pre"], rule exI[of _ post], rule exI[of _ q], intro conjI)
      show "c # cs = (c # pre) @ m @ post" by (simp add: h(1))
      show "m \<in> L" by (rule h(2))
      show "r (q, m @ post, []) \<noteq> []" by (rule h(3))
      show "fst (snd (hd (r (q, m @ post, [])))) = post" by (rule h(4))
      show "\<forall>pre1 w post1. c # cs = pre1 @ w @ post1 \<longrightarrow> w \<in> L \<longrightarrow> length (c # pre) \<le> length pre1"
        by (rule first)
    qed
  qed
qed

lemma first_match_None:
  assumes "accepts r (link_lang mids)" and "first_match r html = None"
  shows "no_link mids html"
proof -
  from assms(2) have "rx_search_from r None html = None"
    by (simp add: first_match_def re_search_def)
  then show ?thesis
    unfolding no_link_def is_link_lang using search_None_accepts[OF assms(1)] by blast
qed

lemma first_match_Some:
  assumes "accepts r (link_lang mids)"
    and "head_sat (\<lambda>y. fst (snd y) = [] \<or> \<not> social_cls (hd (fst (snd y)))) r"
    and "first_match r html = Some m"
  shows "first_link mids html m"
proof -
  from assms(3) obtain g where "rx_search_from r None html = Some (m, g)"
    by (auto simp: first_match_def re_search_def)
  from search_Some_accepts[OF assms(1) this] obtain pre post q where
    h: "html = pre @ m @ post" "m \<in> link_lang mids" "r (q, m @ post, []) \<noteq> []"
       "fst (snd (hd (r (q, m @ post, [])))) = post"
       "\<forall>pre1 w post1. html = pre1 @ w @ post1 \<longrightarrow> w \<in> link_lang mids \<longrightarrow> length pre \<le> length pre1"
    by blast
  have "fst (snd (hd (r (q, m @ post, [])))) = [] \<or>
        \<not> social_cls (hd (fst (snd (hd (r (q, m @ post, []))))))"
    using assms(2)[unfolded head_sat_def, rule_format, OF h(3)] .
  then have g: "post = [] \<or> \<not> social_cls (hd post)" by (simp only: h(4))
  have n: "\<not> (\<exists>pre' m' post'. html = pre' @ m' @ post' \<and> is_link mids m' \<and> length pre' < length pre)"
  proof
    assume "\<exists>pre' m' post'. html = pre' @ m' @ post' \<and> is_link mids m' \<and> length pre' < length pre"
    then obtain pre' m' post' where
      e: "html = pre' @ m' @ post'" "m' \<in> link_lang mids" "length pre' < length pre"
      unfolding is_link_lang by blast
    from h(5)[rule_format, OF e(1) e(2)] e(3) show False by simp
  qed
  have "is_link mids m" using h(2) by (simp add: is_link_lang)
  with h(1) g n show ?thesis unfolding first_link_def by blast
qed

lemma first_link_link: "first_link mids html m \<Longrightarrow> \<not> no_link mids html"
  unfolding first_link_def no_link_def by blast

lemma sniffed_first_match:
  assumes "accepts r (link_lang mids)"
    and "head_sat (\<lambda>y. fst (snd y) = [] \<or> \<not> social_cls (hd (fst (snd y)))) r"
  shows "sniffed mids html old (case first_match r html of None \<Rightarrow> old | Some m \<Rightarrow> m)"
proof (cases "first_match r html")
  case None
  with first_match_None[OF assms(1) None] show ?thesis by (simp add: sniffed_def)
next
  case (Some m)
  from first_match_Some[OF assms Some] have f: "first_link mids html m" .
  with first_link_link[OF f] Some show ?thesis by (simp add: sniffed_def)
qed


lemma no_https_no_link: "\<not> contains html (ustr ''https://'') \<Longrightarrow> no_link mids html"
proof (rule ccontr)
  assume n: "\<not> contains html (ustr ''https://'')" and "\<not> no_link mids html"
  then obtain pre m post where h: "html = pre @ m @ post" "is_link mids m"
    unfolding no_link_def by blast
  from h(2) obtain rest where "m = ustr ''https://'' @ rest"
    unfolding is_link_def by auto
  with h(1) have "html = pre @ ustr ''https://'' @ (rest @ post)" by simp
  then have "contains html (ustr ''https://'')" unfolding contains_iff by blast
  with n show False by simp
qed

lemma sniff_fields:
  "instagram_url (sniff html p) = (case first_match instagram_rx html of None \<Rightarrow> instagram_url p | Some m \<Rightarrow> m)"
  "facebook_url (sniff html p) = (case first_match facebook_rx html of None \<Rightarrow> facebook_url p | Some m \<Rightarrow> m)"
  "linkedin_url (sniff html p) = (case first_match linkedin_rx html of None \<Rightarrow> linkedin_url p | Some m \<Rightarrow> m)"
  "x_url (sniff html p) = (case first_match x_rx html of None \<Rightarrow> x_url p | Some m \<Rightarrow> m)"
  by (simp_all add: sniff_def Let_def split: option.splits)

lemmas rx_eval = rx_cls_def rx_seq_def rx_alt_def rx_eps_def rx_opt_def rx_many1_def
  re_search_def first_match_def is_digit_def is_alpha_def social_cls_def

lemma example_links:
  "first_match instagram_rx (ustr ''<a href=http://instagram.com/acme> https://www.facebook.com/acme?x=1 '') = None"
  "first_match facebook_rx (ustr ''<a href=http://instagram.com/acme> https://www.facebook.com/acme?x=1 '')
     = Some (ustr ''https://www.facebook.com/acme?x=1'')"
  by (simp_all add: instagram_rx_def facebook_rx_def www_rx_def rx_eval ustr_def)

section \<open>Facts about the coordinates\<close>

lemmas coord_eval = at_rx_def bang_rx_def rx_eval rx_grp_def coord_cls_def coords_of_match_def
  extract_coords_def py_float_def digits_val_def Let_def ustr_def

lemma at_rx_other: "c \<noteq> 64 \<Longrightarrow> at_rx (p, c # s, g) = []"
  by (simp add: at_rx_def rx_seq_def rx_cls_def ustr_def)

lemma search_skip_no_at:
  assumes "64 \<notin> set pre" and "s \<noteq> []" and "\<And>q. rx_search_from at_rx q s = R"
  shows "rx_search_from at_rx p (pre @ s) = R"
  using assms(1)
proof (induction pre arbitrary: p)
  case Nil
  show ?case by (simp add: assms(3))
next
  case (Cons c pre)
  then have "c \<noteq> 64" and "64 \<notin> set pre" by auto
  then show ?case using Cons.IH by (simp add: at_rx_other)
qed

lemma coord_cls_chars:
  "coord_cls 50" "coord_cls 52" "coord_cls 46" "coord_cls 56" "\<not> coord_cls 44"
  "coord_cls 54" "coord_cls 55" "coord_cls 48"
  by (simp_all add: coord_cls_def is_digit_def)

lemma at_match_example:
  assumes "post = [] \<or> \<not> coord_cls (hd post)"
  shows "rx_search_from at_rx q (ustr ''@24.8,67.0'' @ post)
           = Some (ustr ''@24.8,67.0'', [ustr ''24.8'', ustr ''67.0''])"
proof (cases post)
  case Nil
  then show ?thesis by (simp add: coord_eval)
next
  case (Cons c cs)
  with assms have "\<not> coord_cls c" by simp
  with Cons show ?thesis
    by (simp add: at_rx_def rx_cls_def rx_seq_def rx_eps_def rx_many1_def rx_grp_def ustr_def coord_cls_chars)
qed

lemma example_floats: "py_float (ustr ''24.8'') = Some 24.8" "py_float (ustr ''67.0'') = Some 67"
  by (simp_all add: coord_eval)

lemma example_urls:
  "extract_coords (ustr ''https://maps/@24.8,67.05'') = (24.8, 67.05)"
  "extract_coords (ustr ''no coords here'') = (0, 0)"
  "extract_coords (ustr ''https://www.google.com/maps/place/X/data=!3d24.81!4d-67.01?hl=en'') = (24.81, -67.01)"
  by (simp_all add: coord_eval)

section \<open>Facts about the discovery loop\<close>

lemma collect_append: "collect acc (xs @ ys) = collect (collect acc xs) ys"
  by (induction xs arbitrary: acc) simp_all

lemma collect_prefix: "\<exists>ext. collect acc xs = acc @ ext"
proof (induction xs arbitrary: acc)
  case Nil
  show ?case by simp
next
  case (Cons x xs)
  show ?case
  proof (cases "x \<in> set acc")
    case True
    with Cons.IH[of acc] show ?thesis by simp
  next
    case False
    from Cons.IH[of "acc @ [x]"] obtain ext where "collect (acc @ [x]) xs = (acc @ [x]) @ ext" by blast
    with False have "collect acc (x # xs) = acc @ (x # ext)" by simp
    then show ?thesis by blast
  qed
qed

lemma length_collect: "length acc \<le> length (collect acc xs)"
  using collect_prefix[of acc xs] by auto

lemma distinct_collect: "distinct acc \<Longrightarrow> distinct (collect acc xs)"
  by (induction xs arbitrary: acc) simp_all

lemma set_collect: "set (collect acc xs) = set acc \<union> set xs"
  by (induction xs arbitrary: acc) auto

lemma collect_same: "set xs \<subseteq> set acc \<Longrightarrow> collect acc xs = acc"
  by (induction xs arbitrary: acc) simp_all

lemma collect_same_iff: "collect acc xs = acc \<longleftrightarrow> set xs \<subseteq> set acc"
proof
  assume "collect acc xs = acc"
  then have "set acc \<union> set xs = set acc" using set_collect[of acc xs] by simp
  then show "set xs \<subseteq> set acc" by auto
qed (rule collect_same)

lemma take_collect_full:
  "length acc = n \<Longrightarrow> take n (collect acc xs) = acc"
  using collect_prefix[of acc xs] by auto

text \<open>The scan adds the new references in order, up to the limit when there is one.\<close>

lemma scan_collect:
  "(0 < mx \<longrightarrow> int (length urls) < mx) \<Longrightarrow>
   scan mx hs urls a =
     (let c = collect urls (filter (\<lambda>h. h \<noteq> []) (map or_empty hs));
          u = (if 0 < mx then take (nat mx) c else c)
      in (u, a + (length u - length urls)))"
proof (induction hs arbitrary: urls a)
  case Nil
  then show ?case by (auto simp: Let_def)
next
  case (Cons h hs)
  let ?ne = "\<lambda>hs. filter (\<lambda>h. h \<noteq> []) (map or_empty hs)"
  show ?case
  proof (cases "\<exists>href. h = Some href \<and> href \<noteq> [] \<and> href \<notin> set urls")
    case False
    then have s: "scan mx (h # hs) urls a = scan mx hs urls a"
      by (cases h) auto
    from False have "collect urls (?ne (h # hs)) = collect urls (?ne hs)"
      by (cases h) (auto simp: or_empty_def)
    with s Cons.IH[OF Cons.prems, of a] show ?thesis by simp
  next
    case True
    then obtain href where h: "h = Some href" "href \<noteq> []" "href \<notin> set urls" by blast
    then have c: "collect urls (?ne (h # hs)) = collect (urls @ [href]) (?ne hs)"
      by (simp add: or_empty_def)
    show ?thesis
    proof (cases "0 < mx \<and> mx \<le> int (length (urls @ [href]))")
      case True
      with Cons.prems have len: "length (urls @ [href]) = nat mx" by auto
      have t: "take (nat mx) (collect (urls @ [href]) (?ne hs)) = urls @ [href]"
        using take_collect_full[OF len] .
      have sc: "scan mx (h # hs) urls a = (urls @ [href], a + 1)"
        using True h by simp
      have u: "(if 0 < mx then take (nat mx) (collect urls (?ne (h # hs)))
                else collect urls (?ne (h # hs))) = urls @ [href]"
        unfolding c using True t by simp
      show ?thesis unfolding Let_def u sc by simp
    next
      case False
      then have pre: "0 < mx \<longrightarrow> int (length (urls @ [href])) < mx" by auto
      have s: "scan mx (h # hs) urls a = scan mx hs (urls @ [href]) (a + 1)"
        using False h by auto
      let ?c = "collect (urls @ [href]) (?ne hs)"
      let ?u = "if 0 < mx then take (nat mx) ?c else ?c"
      have ge: "length (urls @ [href]) \<le> length ?u"
      proof (cases "0 < mx")
        case True
        with pre have "length (urls @ [href]) \<le> nat mx" by auto
        moreover have "length (urls @ [href]) \<le> length ?c" by (rule length_collect)
        ultimately show ?thesis using True by simp
      next
        case False
        then show ?thesis using length_collect[of "urls @ [href]"] by simp
      qed
      then have "(a + 1) + (length ?u - length (urls @ [href])) = a + (length ?u - length urls)"
        by simp
      with s Cons.IH[OF pre, of "a + 1"] c show ?thesis by (simp add: Let_def)
    qed
  qed
qed

lemma seen_0: "seen feed 0 = []"
  by (simp add: seen_def)

lemma seen_Suc: "seen feed (Suc k) = collect (seen feed k) (hrefs_of (feed k))"
  by (simp add: seen_def collect_append)

lemma distinct_seen: "distinct (seen feed k)"
  by (simp add: seen_def distinct_collect)

lemma length_seen_Suc: "length (seen feed k) \<le> length (seen feed (Suc k))"
  by (simp add: seen_Suc length_collect)

lemma length_seen_mono: "i \<le> k \<Longrightarrow> length (seen feed i) \<le> length (seen feed k)"
  by (induction k) (auto simp: le_Suc_eq intro: order_trans[OF _ length_seen_Suc])

lemma adds_none_iff: "adds_none feed j \<longleftrightarrow> seen feed (Suc j) = seen feed j"
  by (simp add: adds_none_def seen_Suc collect_same_iff)

lemma adds_none_length: "adds_none feed j \<longleftrightarrow> length (seen feed (Suc j)) - length (seen feed j) = 0"
proof -
  obtain ext where e: "seen feed (Suc j) = seen feed j @ ext"
    using collect_prefix[of "seen feed j" "hrefs_of (feed j)"] by (auto simp: seen_Suc)
  then show ?thesis by (auto simp: adds_none_iff)
qed

lemma discover_more_fuel:
  "discover fuel mx feed i urls nn = Some r \<Longrightarrow> discover (fuel + d) mx feed i urls nn = Some r"
  by (induction fuel mx feed i urls nn rule: discover.induct) (auto split: step.splits)

lemma round_scan:
  assumes "cards (feed i) = Returns hs" and "0 < mx \<longrightarrow> int (length (seen feed i)) < mx"
  shows "scan mx hs (seen feed i) 0 =
           (let u = (if 0 < mx then take (nat mx) (seen feed (Suc i)) else seen feed (Suc i))
            in (u, length u - length (seen feed i)))"
proof -
  have "hrefs_of (feed i) = filter (\<lambda>h. h \<noteq> []) (map or_empty hs)"
    by (simp add: hrefs_of_def assms(1))
  then have "seen feed (Suc i) = collect (seen feed i) (filter (\<lambda>h. h \<noteq> []) (map or_empty hs))"
    by (simp add: seen_Suc)
  then show ?thesis using scan_collect[OF assms(2), of hs 0] by (simp add: Let_def)
qed

lemma discovery_round_go:
  assumes "\<not> stop_req r" and "cards r = Returns hs" and "scan mx hs urls 0 = (u, added)"
    and "\<not> (0 < mx \<and> mx \<le> int (length u))"
  shows "discovery_round mx r urls nn = stale_step r u added nn"
  using assms by (auto simp: discovery_round_def)

lemma discovery_round_done:
  assumes "\<not> stop_req r" and "cards r = Returns hs" and "scan mx hs urls 0 = (u, added)"
    and "0 < mx \<and> mx \<le> int (length u)"
  shows "discovery_round mx r urls nn = Done u False"
  using assms by (simp add: discovery_round_def)

lemma discover_reaches:
  assumes N: "0 < N"
    and nostop: "\<forall>i\<le>k. \<not> stop_req (feed i)"
    and cards: "\<forall>i\<le>k. cards (feed i) \<noteq> Raises"
    and lt: "length (seen feed k) < N"
    and ge: "N \<le> length (seen feed (Suc k))"
    and pag: "\<forall>i<k. attempts_page feed i \<longrightarrow> go_to_next_results_page (pagination (feed i))"
  shows "i \<le> k \<Longrightarrow>
         discover (Suc (k - i)) (int N) feed i (seen feed i) (stale_before feed i)
           = Some (Returns (take N (seen feed (Suc k)), False))"
proof (induction "k - i" arbitrary: i)
  case 0
  then have ik: "i = k" by simp
  from cards obtain hs where hs: "cards (feed k) = Returns hs"
    by (cases "cards (feed k)") auto
  have pre: "0 < int N \<longrightarrow> int (length (seen feed k)) < int N" using lt by simp
  have sc: "scan (int N) hs (seen feed k) 0 =
              (take N (seen feed (Suc k)), length (take N (seen feed (Suc k))) - length (seen feed k))"
    using round_scan[OF hs pre] N by (simp add: Let_def)
  have len: "0 < int N \<and> int N \<le> int (length (take N (seen feed (Suc k))))"
    using N ge by simp
  have ns: "\<not> stop_req (feed k)" using nostop by simp
  have "discovery_round (int N) (feed k) (seen feed k) (stale_before feed k)
          = Done (take N (seen feed (Suc k))) False"
    by (rule discovery_round_done[OF ns hs sc len])
  then show ?case by (simp add: ik)
next
  case (Suc d)
  then have ik: "i < k" and d: "d = k - Suc i" by auto
  from cards ik obtain hs where hs: "cards (feed i) = Returns hs"
    by (cases "cards (feed i)") auto
  have li: "length (seen feed i) < N"
    using length_seen_mono[of i k feed] ik lt by simp
  have lsi: "length (seen feed (Suc i)) < N"
    using length_seen_mono[of "Suc i" k feed] ik lt by simp
  have pre: "0 < int N \<longrightarrow> int (length (seen feed i)) < int N" using li by simp
  have tk: "take N (seen feed (Suc i)) = seen feed (Suc i)" using lsi by simp
  have sc: "scan (int N) hs (seen feed i) 0 =
              (seen feed (Suc i), length (seen feed (Suc i)) - length (seen feed i))"
    using round_scan[OF hs pre] N tk by (simp add: Let_def)
  have nd: "\<not> (0 < int N \<and> int N \<le> int (length (seen feed (Suc i))))" using lsi by simp
  have ns: "\<not> stop_req (feed i)" using nostop ik by simp
  let ?nn = "stale_before feed i"
  have dr: "discovery_round (int N) (feed i) (seen feed i) ?nn
              = stale_step (feed i) (seen feed (Suc i)) (length (seen feed (Suc i)) - length (seen feed i)) ?nn"
    by (rule discovery_round_go[OF ns hs sc nd])
  have le: "Suc i \<le> k" using ik by simp
  have fuel: "Suc (k - i) = Suc (Suc (k - Suc i))" using ik by simp
  have ih: "discover (Suc (k - Suc i)) (int N) feed (Suc i) (seen feed (Suc i)) (stale_before feed (Suc i))
              = Some (Returns (take N (seen feed (Suc k)), False))"
    by (rule Suc.hyps(1)[OF d le])
  have st: "discovery_round (int N) (feed i) (seen feed i) ?nn
              = Go (seen feed (Suc i)) (stale_before feed (Suc i))"
  proof (cases "adds_none feed i")
    case False
    then have "length (seen feed (Suc i)) - length (seen feed i) \<noteq> 0"
      by (simp add: adds_none_length)
    with False show ?thesis by (simp add: dr stale_step_def)
  next
    case True
    then have a0: "length (seen feed (Suc i)) - length (seen feed i) = 0"
      by (simp add: adds_none_length)
    show ?thesis
    proof (cases "MAX_NO_NEW_ROUNDS \<le> ?nn + 1")
      case False
      with True show ?thesis by (simp add: dr stale_step_def a0)
    next
      case m: True
      with True have "attempts_page feed i" by (simp add: attempts_page_def)
      then have "go_to_next_results_page (pagination (feed i))"
        using pag ik by blast
      with True m show ?thesis by (simp add: dr stale_step_def a0)
    qed
  qed
  show ?case unfolding fuel using ih by (simp add: st)
qed

text \<open>
  The other side: a scan after which pagination is attempted and fails ends the loop with
  the references seen so far.
\<close>

lemma discover_gives_up:
  assumes N: "0 < N"
    and nostop: "\<forall>i\<le>k. \<not> stop_req (feed i)"
    and cards: "\<forall>i\<le>k. cards (feed i) \<noteq> Raises"
    and lt: "length (seen feed (Suc k)) < N"
    and pag: "\<forall>i<k. attempts_page feed i \<longrightarrow> go_to_next_results_page (pagination (feed i))"
    and att: "attempts_page feed k"
    and fail: "\<not> go_to_next_results_page (pagination (feed k))"
  shows "i \<le> k \<Longrightarrow>
         discover (Suc (k - i)) (int N) feed i (seen feed i) (stale_before feed i)
           = Some (Returns (seen feed k, False))"
proof (induction "k - i" arbitrary: i)
  case 0
  then have ik: "i = k" by simp
  from cards obtain hs where hs: "cards (feed k) = Returns hs"
    by (cases "cards (feed k)") auto
  have lk: "length (seen feed k) < N"
    using length_seen_Suc[of feed k] lt by simp
  have pre: "0 < int N \<longrightarrow> int (length (seen feed k)) < int N" using lk by simp
  have tk: "take N (seen feed (Suc k)) = seen feed (Suc k)" using lt by simp
  have sc: "scan (int N) hs (seen feed k) 0 =
              (seen feed (Suc k), length (seen feed (Suc k)) - length (seen feed k))"
    using round_scan[OF hs pre] N tk by (simp add: Let_def)
  have nd: "\<not> (0 < int N \<and> int N \<le> int (length (seen feed (Suc k))))" using lt by simp
  have ns: "\<not> stop_req (feed k)" using nostop by simp
  have dr: "discovery_round (int N) (feed k) (seen feed k) (stale_before feed k)
              = stale_step (feed k) (seen feed (Suc k)) (length (seen feed (Suc k)) - length (seen feed k))
                  (stale_before feed k)"
    by (rule discovery_round_go[OF ns hs sc nd])
  from att have an: "adds_none feed k" and m: "MAX_NO_NEW_ROUNDS \<le> stale_before feed k + 1"
    by (simp_all add: attempts_page_def)
  from an have a0: "length (seen feed (Suc k)) - length (seen feed k) = 0"
    by (simp add: adds_none_length)
  from an have same: "seen feed (Suc k) = seen feed k" by (simp add: adds_none_iff)
  have "discovery_round (int N) (feed k) (seen feed k) (stale_before feed k) = Done (seen feed k) False"
    using m fail by (simp add: dr stale_step_def a0 same)
  then show ?case by (simp add: ik)
next
  case (Suc d)
  then have ik: "i < k" and d: "d = k - Suc i" by auto
  from cards ik obtain hs where hs: "cards (feed i) = Returns hs"
    by (cases "cards (feed i)") auto
  have lsi: "length (seen feed (Suc i)) < N"
    using length_seen_mono[of "Suc i" "Suc k" feed] ik lt by simp
  have li: "length (seen feed i) < N"
    using length_seen_Suc[of feed i] lsi by simp
  have pre: "0 < int N \<longrightarrow> int (length (seen feed i)) < int N" using li by simp
  have tk: "take N (seen feed (Suc i)) = seen feed (Suc i)" using lsi by simp
  have sc: "scan (int N) hs (seen feed i) 0 =
              (seen feed (Suc i), length (seen feed (Suc i)) - length (seen feed i))"
    using round_scan[OF hs pre] N tk by (simp add: Let_def)
  have nd: "\<not> (0 < int N \<and> int N \<le> int (length (seen feed (Suc i))))" using lsi by simp
  have ns: "\<not> stop_req (feed i)" using nostop ik by simp
  let ?nn = "stale_before feed i"
  have dr: "discovery_round (int N) (feed i) (seen feed i) ?nn
              = stale_step (feed i) (seen feed (Suc i)) (length (seen feed (Suc i)) - length (seen feed i)) ?nn"
    by (rule discovery_round_go[OF ns hs sc nd])
  have le: "Suc i \<le> k" using ik by simp
  have fuel: "Suc (k - i) = Suc (Suc (k - Suc i))" using ik by simp
  have ih: "discover (Suc (k - Suc i)) (int N) feed (Suc i) (seen feed (Suc i)) (stale_before feed (Suc i))
              = Some (Returns (seen feed k, False))"
    by (rule Suc.hyps(1)[OF d le])
  have st: "discovery_round (int N) (feed i) (seen feed i) ?nn
              = Go (seen feed (Suc i)) (stale_before feed (Suc i))"
  proof (cases "adds_none feed i")
    case False
    then have "length (seen feed (Suc i)) - length (seen feed i) \<noteq> 0"
      by (simp add: adds_none_length)
    with False show ?thesis by (simp add: dr stale_step_def)
  next
    case True
    then have a0: "length (seen feed (Suc i)) - length (seen feed i) = 0"
      by (simp add: adds_none_length)
    show ?thesis
    proof (cases "MAX_NO_NEW_ROUNDS \<le> ?nn + 1")
      case False
      with True show ?thesis by (simp add: dr stale_step_def a0)
    next
      case m: True
      with True have "attempts_page feed i" by (simp add: attempts_page_def)
      then have "go_to_next_results_page (pagination (feed i))"
        using pag ik by blast
      with True m show ?thesis by (simp add: dr stale_step_def a0)
    qed
  qed
  show ?case unfolding fuel using ih by (simp add: st)
qed

lemma discovery_gives_up:
  assumes "0 < N"
    and "\<forall>i\<le>k. \<not> stop_req (feed i)"
    and "\<forall>i\<le>k. cards (feed i) \<noteq> Raises"
    and "length (seen feed (Suc k)) < N"
    and "\<forall>i<k. attempts_page feed i \<longrightarrow> go_to_next_results_page (pagination (feed i))"
    and "attempts_page feed k"
    and "\<not> go_to_next_results_page (pagination (feed k))"
  shows "listing_discovery (Suc k) (int N) feed = Some (Returns (seen feed k, False))"
proof -
  have "discover (Suc (k - 0)) (int N) feed 0 (seen feed 0) (stale_before feed 0)
          = Some (Returns (seen feed k, False))"
    by (rule discover_gives_up[OF assms]) simp
  then show ?thesis by (simp add: listing_discovery_def seen_0)
qed


lemmas feed_eval = quiet_def place_a_def place_b_def place_c_def hrefs_of_def or_empty_def
  seen_Suc seen_0 ustr_def

lemmas loop_eval = listing_discovery_def discovery_round_def stale_step_def MAX_NO_NEW_ROUNDS_def
  quiet_def place_a_def place_b_def place_c_def ustr_def Let_def

lemma seen_slow_feed: "seen slow_feed 6 = [place_a]"
  by (simp add: eval_nat_numeral slow_feed_def feed_eval)

lemma discovery_slow_feed: "listing_discovery 5 1 slow_feed = Some (Returns ([], False))"
  by (simp add: eval_nat_numeral slow_feed_def loop_eval)

lemma seen_paged_feed:
  "seen paged_feed 8 = [place_a]" "seen paged_feed 9 = [place_a, place_b]"
  by (simp_all add: eval_nat_numeral paged_feed_def feed_eval)

lemma discovery_paged_feed:
  "listing_discovery 9 2 paged_feed = Some (Returns ([place_a, place_b], False))"
  by (simp add: eval_nat_numeral paged_feed_def loop_eval)

lemma adds_paged_feed:
  "\<not> adds_none paged_feed 0" "adds_none paged_feed 1" "adds_none paged_feed 2"
  "adds_none paged_feed 3" "adds_none paged_feed 4" "adds_none paged_feed 5"
  "adds_none paged_feed 6" "adds_none paged_feed 7"
  by (simp_all add: eval_nat_numeral adds_none_def paged_feed_def feed_eval)

lemma stale_before_next:
  "stale_before feed i = n \<Longrightarrow> adds_none feed i \<Longrightarrow> n < 4 \<Longrightarrow> j = Suc i \<Longrightarrow> m = Suc n \<Longrightarrow>
   stale_before feed j = m"
  by (simp add: MAX_NO_NEW_ROUNDS_def)

lemma stale_before_reset:
  "\<not> adds_none feed i \<or> 4 \<le> stale_before feed i \<Longrightarrow> j = Suc i \<Longrightarrow> stale_before feed j = 0"
  by (auto simp: MAX_NO_NEW_ROUNDS_def)

lemma stale_paged_feed:
  "stale_before paged_feed 0 = 0" "stale_before paged_feed 1 = 0" "stale_before paged_feed 2 = 1"
  "stale_before paged_feed 3 = 2" "stale_before paged_feed 4 = 3" "stale_before paged_feed 5 = 4"
  "stale_before paged_feed 6 = 0" "stale_before paged_feed 7 = 1"
proof -
  show "stale_before paged_feed 0 = 0" by simp
  show s1: "stale_before paged_feed 1 = 0"
    by (rule stale_before_reset[of paged_feed 0]) (simp_all add: adds_paged_feed(1))
  show s2: "stale_before paged_feed 2 = 1"
    by (rule stale_before_next[OF s1 adds_paged_feed(2)]) simp_all
  show s3: "stale_before paged_feed 3 = 2"
    by (rule stale_before_next[OF s2 adds_paged_feed(3)]) simp_all
  show s4: "stale_before paged_feed 4 = 3"
    by (rule stale_before_next[OF s3 adds_paged_feed(4)]) simp_all
  show s5: "stale_before paged_feed 5 = 4"
    by (rule stale_before_next[OF s4 adds_paged_feed(5)]) simp_all
  have "4 \<le> stale_before paged_feed 5" unfolding s5 by simp
  then have r: "\<not> adds_none paged_feed 5 \<or> 4 \<le> stale_before paged_feed 5" by (rule disjI2)
  show s6: "stale_before paged_feed 6 = 0"
    by (rule stale_before_reset[OF r]) simp
  show "stale_before paged_feed 7 = 1"
    by (rule stale_before_next[OF s6 adds_paged_feed(7)]) simp_all
qed

lemma attempts_paged_feed:
  "attempts_page paged_feed 5" "\<not> attempts_page paged_feed 6"
  "i < 8 \<Longrightarrow> attempts_page paged_feed i \<Longrightarrow> i = 5"
proof -
  show "attempts_page paged_feed 5"
    unfolding attempts_page_def MAX_NO_NEW_ROUNDS_def stale_paged_feed
    using adds_paged_feed(6) by simp
  have e: "\<not> attempts_page paged_feed 0" "\<not> attempts_page paged_feed 1"
    "\<not> attempts_page paged_feed 2" "\<not> attempts_page paged_feed 3"
    "\<not> attempts_page paged_feed 4" "\<not> attempts_page paged_feed 6"
    "\<not> attempts_page paged_feed 7"
    unfolding attempts_page_def MAX_NO_NEW_ROUNDS_def stale_paged_feed by simp_all
  then show "\<not> attempts_page paged_feed 6" by simp
  assume i: "i < 8" and a: "attempts_page paged_feed i"
  from i have "i = 0 \<or> i = 1 \<or> i = 2 \<or> i = 3 \<or> i = 4 \<or> i = 5 \<or> i = 6 \<or> i = 7" by arith
  with a e show "i = 5" by auto
qed



section \<open>Facts about the orchestrator\<close>

lemma clear_stop_False: "clear_stop flag = False"
  by (simp add: clear_stop_def)

lemma scrape_listings_stop:
  assumes "j < length urls"
    and "mx \<le> 0 \<or> int (k + j) < mx"
    and "\<forall>i\<le>j. \<not> goto_raises (visits (k + i))"
    and "\<forall>i<j. \<not> press_first (visits (k + i)) \<and> \<not> press_second (visits (k + i))"
    and "press_first (visits (k + j)) \<or> press_second (visits (k + j))"
  shows "scrape_listings lower fetch ui mx visits k urls False places =
           Returns (places @ map (\<lambda>i. extract_place lower fetch (shown (visits (k + i))) ui
                                    (int (k + i) + 1) (urls ! i)) [0..<Suc j], True)"
  using assms
proof (induction urls arbitrary: k j places)
  case Nil
  then show ?case by simp
next
  case (Cons link rest)
  have cap: "\<not> (0 < mx \<and> mx < int k + 1)" using Cons.prems(2) by auto
  have g: "\<not> goto_raises (visits k)" using Cons.prems(3) by (metis add.right_neutral le0)
  show ?case
  proof (cases j)
    case 0
    with Cons.prems(5) have "press_first (visits k) \<or> press_second (visits k)" by simp
    with cap g 0 show ?thesis by (auto simp: Let_def)
  next
    case (Suc j')
    have np: "\<not> press_first (visits k)" "\<not> press_second (visits k)"
      using Cons.prems(4) Suc by (metis add.right_neutral zero_less_Suc)+
    let ?p = "extract_place lower fetch (shown (visits k)) ui (int k + 1) link"
    have step: "scrape_listings lower fetch ui mx visits k (link # rest) False places
                  = scrape_listings lower fetch ui mx visits (Suc k) rest False (places @ [?p])"
      using cap g np by (auto simp: Let_def)
    have a1: "j' < length rest" using Cons.prems(1) Suc by simp
    have a2: "mx \<le> 0 \<or> int (Suc k + j') < mx" using Cons.prems(2) Suc by simp
    have a3: "\<forall>i\<le>j'. \<not> goto_raises (visits (Suc k + i))"
    proof (intro allI impI)
      fix i assume "i \<le> j'"
      then have "Suc i \<le> j" using Suc by simp
      with Cons.prems(3) have "\<not> goto_raises (visits (k + Suc i))" by blast
      then show "\<not> goto_raises (visits (Suc k + i))" by simp
    qed
    have a4: "\<forall>i<j'. \<not> press_first (visits (Suc k + i)) \<and> \<not> press_second (visits (Suc k + i))"
    proof (intro allI impI)
      fix i assume "i < j'"
      then have "Suc i < j" using Suc by simp
      with Cons.prems(4) have "\<not> press_first (visits (k + Suc i)) \<and> \<not> press_second (visits (k + Suc i))"
        by blast
      then show "\<not> press_first (visits (Suc k + i)) \<and> \<not> press_second (visits (Suc k + i))" by simp
    qed
    have a5: "press_first (visits (Suc k + j')) \<or> press_second (visits (Suc k + j'))"
      using Cons.prems(5) Suc by simp
    have ih: "scrape_listings lower fetch ui mx visits (Suc k) rest False (places @ [?p]) =
           Returns ((places @ [?p]) @ map (\<lambda>i. extract_place lower fetch (shown (visits (Suc k + i))) ui
                                    (int (Suc k + i) + 1) (rest ! i)) [0..<Suc j'], True)"
      by (rule Cons.IH[OF a1 a2 a3 a4 a5])
    have m: "map (\<lambda>i. extract_place lower fetch (shown (visits (k + i))) ui
                      (int (k + i) + 1) ((link # rest) ! i)) [0..<Suc (Suc j')]
             = ?p # map (\<lambda>i. extract_place lower fetch (shown (visits (Suc k + i))) ui
                      (int (Suc k + i) + 1) (rest ! i)) [0..<Suc j']"
      by (subst map_upt_Suc) simp
    show ?thesis unfolding step ih Suc m by simp
  qed
qed

lemma scrape_listings_all:
  assumes "mx \<le> 0 \<or> int (k + length urls) \<le> mx"
    and "\<forall>i<length urls. \<not> goto_raises (visits (k + i)) \<and> \<not> press_first (visits (k + i)) \<and>
           \<not> press_second (visits (k + i))"
  shows "scrape_listings lower fetch ui mx visits k urls False places =
           Returns (places @ map (\<lambda>i. extract_place lower fetch (shown (visits (k + i))) ui
                                    (int (k + i) + 1) (urls ! i)) [0..<length urls], False)"
  using assms
proof (induction urls arbitrary: k places)
  case Nil
  then show ?case by simp
next
  case (Cons link rest)
  have cap: "\<not> (0 < mx \<and> mx < int k + 1)" using Cons.prems(1) by auto
  have v: "\<not> goto_raises (visits k)" "\<not> press_first (visits k)" "\<not> press_second (visits k)"
    using Cons.prems(2)[rule_format, of 0] by simp_all
  let ?p = "extract_place lower fetch (shown (visits k)) ui (int k + 1) link"
  have step: "scrape_listings lower fetch ui mx visits k (link # rest) False places
                = scrape_listings lower fetch ui mx visits (Suc k) rest False (places @ [?p])"
    using cap v by (auto simp: Let_def)
  have a1: "mx \<le> 0 \<or> int (Suc k + length rest) \<le> mx" using Cons.prems(1) by simp
  have a2: "\<forall>i<length rest. \<not> goto_raises (visits (Suc k + i)) \<and> \<not> press_first (visits (Suc k + i)) \<and>
           \<not> press_second (visits (Suc k + i))"
  proof (intro allI impI)
    fix i assume "i < length rest"
    then have "Suc i < length (link # rest)" by simp
    from Cons.prems(2)[rule_format, OF this]
    show "\<not> goto_raises (visits (Suc k + i)) \<and> \<not> press_first (visits (Suc k + i)) \<and>
           \<not> press_second (visits (Suc k + i))" by simp
  qed
  have ih: "scrape_listings lower fetch ui mx visits (Suc k) rest False (places @ [?p]) =
         Returns ((places @ [?p]) @ map (\<lambda>i. extract_place lower fetch (shown (visits (Suc k + i))) ui
                                  (int (Suc k + i) + 1) (rest ! i)) [0..<length rest], False)"
    by (rule Cons.IH[OF a1 a2])
  have m: "map (\<lambda>i. extract_place lower fetch (shown (visits (k + i))) ui
                    (int (k + i) + 1) ((link # rest) ! i)) [0..<length (link # rest)]
           = ?p # map (\<lambda>i. extract_place lower fetch (shown (visits (Suc k + i))) ui
                    (int (Suc k + i) + 1) (rest ! i)) [0..<length rest]"
    unfolding list.size by (simp add: map_upt_Suc del: upt_Suc)
  show ?case unfolding step ih m by simp
qed

lemma stale_step_cases:
  "stale_step r urls added nn = Done urls False \<or> (\<exists>n. stale_step r urls added nn = Go urls n)"
  by (simp add: stale_step_def)

lemma scan_length_le:
  assumes "0 < mx" and "int (length urls) < mx"
  shows "int (length (fst (scan mx hs urls a))) \<le> mx"
proof -
  have "fst (scan mx hs urls a) =
          take (nat mx) (collect urls (filter (\<lambda>h. h \<noteq> []) (map or_empty hs)))"
    using scan_collect[of mx urls hs a] assms by (simp add: Let_def)
  then show ?thesis using assms(1) by simp
qed

lemma discover_length_le:
  "0 < mx \<Longrightarrow> int (length urls) < mx \<Longrightarrow>
   discover fuel mx feed i urls nn = Some (Returns (u, s)) \<Longrightarrow> int (length u) \<le> mx"
proof (induction fuel arbitrary: i urls nn)
  case 0
  then show ?case by simp
next
  case (Suc fuel)
  show ?case
  proof (cases "stop_req (feed i)")
    case True
    then have "discovery_round mx (feed i) urls nn = Done urls True"
      by (simp add: discovery_round_def)
    with Suc.prems show ?thesis by simp
  next
    case ns: False
    show ?thesis
    proof (cases "cards (feed i)")
      case Raises
      with ns have "discovery_round mx (feed i) urls nn = Crash"
        by (simp add: discovery_round_def)
      with Suc.prems show ?thesis by simp
    next
      case (Returns hs)
      obtain u' added where sc: "scan mx hs urls 0 = (u', added)" by (cases "scan mx hs urls 0")
      have lu: "int (length u') \<le> mx"
        using scan_length_le[OF Suc.prems(1,2), of hs 0] sc by simp
      show ?thesis
      proof (cases "mx \<le> int (length u')")
        case True
        with Suc.prems(1) have "discovery_round mx (feed i) urls nn = Done u' False"
          using discovery_round_done[OF ns Returns sc] by simp
        with Suc.prems(3) lu show ?thesis by simp
      next
        case False
        then have dr: "discovery_round mx (feed i) urls nn = stale_step (feed i) u' added nn"
          using discovery_round_go[OF ns Returns sc] by simp
        from stale_step_cases[of "feed i" u' added nn] show ?thesis
        proof
          assume "stale_step (feed i) u' added nn = Done u' False"
          with dr Suc.prems(3) lu show ?thesis by simp
        next
          assume "\<exists>n. stale_step (feed i) u' added nn = Go u' n"
          then obtain n where "stale_step (feed i) u' added nn = Go u' n" by blast
          with dr Suc.prems(3) have "discover fuel mx feed (Suc i) u' n = Some (Returns (u, s))"
            by simp
          moreover have "int (length u') < mx" using False by simp
          ultimately show ?thesis using Suc.IH Suc.prems(1) by blast
        qed
      qed
    qed
  qed
qed

lemma discovery_within_limit:
  "listing_discovery fuel mx feed = Some (Returns (urls, s)) \<Longrightarrow> mx \<le> 0 \<or> int (length urls) \<le> mx"
proof (cases "0 < mx")
  case True
  assume "listing_discovery fuel mx feed = Some (Returns (urls, s))"
  then have "discover fuel mx feed 0 [] 0 = Some (Returns (urls, s))"
    by (simp add: listing_discovery_def)
  from discover_length_le[OF True _ this] True show ?thesis by simp
next
  case False
  then show ?thesis by simp
qed

lemma records_fields_nonempty:
  "list_all (\<lambda>p. list_all (\<lambda>v. v \<noteq> []) (string_fields p))
     (records_of lower fetch ui visits urls n)"
proof -
  have nf: "\<And>v. norm_field v \<noteq> []"
    using norm_field_nonempty strip_Nil by metis
  have "\<And>pg idx link. list_all (\<lambda>v. v \<noteq> []) (string_fields (extract_place lower fetch pg ui idx link))"
    by (simp add: extract_place_def string_fields_normalize list_all_iff nf)
  then show ?thesis by (simp add: records_of_def list_all_iff)
qed

lemma scrape_after_discovery:
  assumes "output_filename query_q unquote ui = Returns fname"
    and "start_url quote ui = Returns url"
    and "launches w \<and> opens w url \<and> closes w"
    and "listing_discovery fuel mx (w_feed w) = Some (Returns (urls, stopped))"
    and "scrape_listings lower fetch ui mx (w_visits w) 0 urls False [] = Returns (places, flag)"
  shows "scrape_places_streamlit fuel lower fetch query_q unquote quote w ui mx
           = Some (Returns (places, fname))"
  using assms by (simp add: scrape_places_streamlit_def clear_stop_False)

text \<open>
  A raise of \<open>urlparse\<close> or of \<open>quote\<close> leaves the function: it returns nothing, whatever the
  browser would have answered.
\<close>

lemma scrape_library_raises:
  assumes "output_filename query_q unquote ui = Raises \<or> start_url quote ui = Raises"
  shows "scrape_places_streamlit fuel lower fetch query_q unquote quote w ui mx = Some Raises"
  using assms by (auto simp: scrape_places_streamlit_def split: py.splits)

lemma output_filename_raises:
  "output_filename query_q unquote ui = Raises \<longleftrightarrow>
     startswith ui (ustr ''http'') \<and> query_q ui = Raises"
  by (auto simp: output_filename_def output_basename_def search_title_def
      split: py.splits option.splits)

lemma library_examples:
  "output_filename no_query (\<lambda>u. u) (ustr ''cafe'') = Returns (ustr ''cafe.csv'')"
  "start_url quote_plain (ustr ''cafe'') = Returns (ustr ''https://www.google.com/maps/search/cafe'')"
  "output_filename no_query (\<lambda>u. u) (ustr ''http://['') = Raises"
  by (simp_all add: output_filename_def output_basename_def search_title_def no_query_def
      quote_plain_def start_url_def startswith_def sanitize_filename_def strip_chars_def
      strip_where_def fname_kept_def ustr_def)

lemma scrape_bad_address:
  "scrape_places_streamlit fuel lower fetch no_query (\<lambda>u. u) quote w (ustr ''http://['') mx
     = Some Raises"
  by (rule scrape_library_raises) (simp add: library_examples)

lemma discovery_examples:
  "listing_discovery 3 3 grow_feed = Some (Returns ([place_a, place_b, place_c], False))"
  "listing_discovery 2 0 stop_feed = Some (Returns ([place_a, place_b], True))"
  by (simp_all add: eval_nat_numeral grow_feed_def stop_feed_def loop_eval)

section \<open>Claims\<close>

text \<open>
  C1. The statement of the specification fails as it stands: a feed can expose a listing and the loop still end with
  none. \<open>slow_feed\<close> shows its listing from the sixth scan on; with \<open>max_listings = 1\<close> the
  loop counts five scans without a new card, finds no next page and returns the empty list.
\<close>

theorem discovery_slow_feed_counterexample:
  "1 \<le> length (seen slow_feed 6) \<and> listing_discovery 5 1 slow_feed = Some (Returns ([], False))"
  by (simp add: seen_slow_feed discovery_slow_feed)

text \<open>
  C1, amended. Let \<open>max_listings = N > 0\<close>. If the stop flag is unset at every poll and no
  scan raises up to scan \<open>k\<close>, the scans before \<open>k\<close> expose fewer than \<open>N\<close> unique
  references and those up to \<open>k\<close> at least \<open>N\<close>, and every pagination attempt the loop makes
  before scan \<open>k\<close> succeeds (it makes one after each fifth scan in a row without a new
  reference, counting from the last new reference or the last pagination), then the loop
  ends in scan \<open>k\<close> with exactly \<open>N\<close> references, without duplicates, in the order of their
  first appearance.
\<close>

theorem discovery_collects_exactly_N:
  assumes "0 < N"
    and "\<forall>i\<le>k. \<not> stop_req (feed i)"
    and "\<forall>i\<le>k. cards (feed i) \<noteq> Raises"
    and "length (seen feed k) < N"
    and "N \<le> length (seen feed (Suc k))"
    and "\<forall>i<k. attempts_page feed i \<longrightarrow> go_to_next_results_page (pagination (feed i))"
  shows "listing_discovery (Suc k) (int N) feed = Some (Returns (take N (seen feed (Suc k)), False))
     \<and> length (take N (seen feed (Suc k))) = N
     \<and> distinct (take N (seen feed (Suc k)))"
proof (intro conjI)
  have "discover (Suc (k - 0)) (int N) feed 0 (seen feed 0) (stale_before feed 0)
          = Some (Returns (take N (seen feed (Suc k)), False))"
    by (rule discover_reaches[OF assms]) simp
  then show "listing_discovery (Suc k) (int N) feed = Some (Returns (take N (seen feed (Suc k)), False))"
    by (simp add: listing_discovery_def seen_0)
  show "length (take N (seen feed (Suc k))) = N" using assms(5) by simp
  show "distinct (take N (seen feed (Suc k)))" by (simp add: distinct_seen)
qed

theorem discovery_collects_exactly_N_witness:
  "0 < (2::nat)
   \<and> length (seen paged_feed 8) < 2
   \<and> 2 \<le> length (seen paged_feed 9)
   \<and> attempts_page paged_feed 5
   \<and> go_to_next_results_page (pagination (paged_feed 5))
   \<and> adds_none paged_feed 6 \<and> \<not> attempts_page paged_feed 6
   \<and> \<not> go_to_next_results_page (pagination (paged_feed 6))
   \<and> listing_discovery 9 2 paged_feed = Some (Returns ([place_a, place_b], False))"
proof -
  have h2: "\<forall>i\<le>8. \<not> stop_req (paged_feed i)" by (simp add: paged_feed_def quiet_def)
  have h3: "\<forall>i\<le>8. cards (paged_feed i) \<noteq> Raises" by (simp add: paged_feed_def quiet_def)
  have h4: "length (seen paged_feed 8) < 2" by (simp add: seen_paged_feed)
  have h5: "2 \<le> length (seen paged_feed (Suc 8))"
    using seen_paged_feed(2) by (simp add: eval_nat_numeral)
  have c5: "go_to_next_results_page (pagination (paged_feed 5))" by (simp add: paged_feed_def)
  have h6: "\<forall>i<8. attempts_page paged_feed i \<longrightarrow> go_to_next_results_page (pagination (paged_feed i))"
    using attempts_paged_feed(3) c5 by blast
  have a5: "attempts_page paged_feed 5" by (rule attempts_paged_feed(1))
  have a6: "adds_none paged_feed 6 \<and> \<not> attempts_page paged_feed 6"
    using adds_paged_feed(7) attempts_paged_feed(2) by simp
  have c6: "\<not> go_to_next_results_page (pagination (paged_feed 6))"
    by (simp add: paged_feed_def quiet_def)
  have t: "take 2 (seen paged_feed (Suc 8)) = [place_a, place_b]"
    using seen_paged_feed(2) by (simp add: eval_nat_numeral)
  have "listing_discovery (Suc 8) (int 2) paged_feed = Some (Returns ([place_a, place_b], False))"
    using discovery_collects_exactly_N [of 2 8 paged_feed, OF _ h2 h3 h4 h5 h6] t by simp
  then have "listing_discovery 9 2 paged_feed = Some (Returns ([place_a, place_b], False))"
    by (simp add: eval_nat_numeral)
  with h4 h5 a5 c5 a6 c6 show ?thesis by (simp add: eval_nat_numeral)
qed

text \<open>
  C2. Every call of \<open>extract_place\<close> into the browser or the network either raises or
  returns, and each such call stands inside a handler of the source, so the model has a
  record for every page, whatever is absent or fails on it. After the final pass every
  string field of that record is non-empty, and not blank either.
\<close>

theorem extract_place_fields_nonempty:
  "list_all (\<lambda>v. v \<noteq> [] \<and> strip v \<noteq> [])
     (string_fields (extract_place lower fetch pg ui idx link))"
proof -
  have "\<And>v. norm_field v \<noteq> [] \<and> strip (norm_field v) \<noteq> []"
    using norm_field_nonempty strip_Nil by metis
  then show ?thesis
    by (simp add: extract_place_def string_fields_normalize list_all_iff)
qed

theorem extract_place_fields_nonempty_witness:
  "list_all (\<lambda>v. v \<noteq> [] \<and> strip v \<noteq> [])
     (string_fields (extract_place ascii_lower (\<lambda>u. Raises) (monday_page (ustr ''9 AM''))
        (ustr ''cafe'') 1 (ustr ''https://www.google.com/maps/place/X'')))
   \<and> name (extract_place ascii_lower (\<lambda>u. Raises) (monday_page (ustr ''9 AM''))
        (ustr ''cafe'') 1 (ustr ''https://www.google.com/maps/place/X'')) = ustr ''-''"
proof -
  have "name (extract_place ascii_lower (\<lambda>u. Raises) (monday_page (ustr ''9 AM''))
        (ustr ''cafe'') 1 (ustr ''https://www.google.com/maps/place/X'')) = ustr ''-''"
    using absent_page_fields by (simp add: string_fields_def dash_def)
  then show ?thesis
    using extract_place_fields_nonempty [of ascii_lower "\<lambda>u. Raises" "monday_page (ustr ''9 AM'')"
      "ustr ''cafe''" 1 "ustr ''https://www.google.com/maps/place/X''"]
    by blast
qed




text \<open>
  C4. When the address, cleaned and split as \<open>parse_address_parts\<close> does it, has at least
  two segments and the last one holds no digit, the country returned is that last segment.
\<close>

theorem parse_address_country:
  assumes "2 \<le> length (address_parts addr)"
    and "\<not> list_ex is_digit (last (address_parts addr))"
  shows "snd (snd (parse_address_parts addr)) = last (address_parts addr)"
proof -
  let ?parts = "address_parts addr"
  from assms(1) have ne: "?parts \<noteq> []" by auto
  then have "last ?parts \<in> set ?parts" by simp
  then have l: "last ?parts \<noteq> []" by (rule address_parts_nonempty)
  from assms(2) have s: "re_search (rx_cls is_digit) (last ?parts) = None"
    by (simp add: re_search_def rx_search_cls_None)
  show ?thesis
    using assms(1) ne l s
    by (simp add: parse_address_parts_def Let_def split: prod.split)
qed

theorem parse_address_country_witness:
  "2 \<le> length (address_parts (ustr ''Karachi 75500, Pakistan''))
   \<and> \<not> list_ex is_digit (last (address_parts (ustr ''Karachi 75500, Pakistan'')))
   \<and> snd (snd (parse_address_parts (ustr ''Karachi 75500, Pakistan''))) = ustr ''Pakistan''"
proof -
  have h1: "2 \<le> length (address_parts (ustr ''Karachi 75500, Pakistan''))"
    unfolding address_parts_example by simp
  have h2: "\<not> list_ex is_digit (last (address_parts (ustr ''Karachi 75500, Pakistan'')))"
    unfolding address_parts_example by (simp add: ustr_def is_digit_def)
  have "snd (snd (parse_address_parts (ustr ''Karachi 75500, Pakistan''))) = ustr ''Pakistan''"
    using parse_address_country [OF h1 h2] unfolding address_parts_example by simp
  with h1 h2 show ?thesis by blast
qed

text \<open>
  C5. The statement of the specification fails in its example: a listing URL can contain \<open>@24.8,67.0\<close>
  and yield other coordinates, because the second group runs on over every further digit,
  dot and hyphen. (The coordinates are the exact decimal values of the texts; Python rounds
  both 67.05 and 67.0 to different doubles.)
\<close>

theorem coords_containing_counterexample:
  "contains (ustr ''https://maps/@24.8,67.05'') (ustr ''@24.8,67.0'')
   \<and> extract_coords (ustr ''https://maps/@24.8,67.05'') \<noteq> (24.8, 67)"
  unfolding example_urls by (simp add: startswith_def ustr_def)

text \<open>
  C5, amended. \<open>extract_coords\<close> is a function of the listing URL alone. A match of the
  \<open>@\<close> pattern decides the result; the \<open>!3d\<close> pattern is used only when the first has no
  match; zero twice is the result when neither matches and when a group is no float. A URL
  in which no \<open>@\<close> stands before \<open>@24.8,67.0\<close> and no digit, dot or hyphen follows it
  yields (24.8, 67.0).
\<close>

theorem extract_coords_contract:
  "(\<forall>m. re_search at_rx url = Some m \<longrightarrow> extract_coords url = coords_of_match m)
   \<and> (\<forall>m. re_search at_rx url = None \<longrightarrow> re_search bang_rx url = Some m \<longrightarrow>
          extract_coords url = coords_of_match m)
   \<and> (re_search at_rx url = None \<longrightarrow> re_search bang_rx url = None \<longrightarrow> extract_coords url = (0, 0))
   \<and> (\<forall>m g1 g2. py_float g1 = None \<or> py_float g2 = None \<longrightarrow> coords_of_match (m, [g1, g2]) = (0, 0))
   \<and> (64 \<notin> set pre \<longrightarrow> (post = [] \<or> \<not> coord_cls (hd post)) \<longrightarrow>
          extract_coords (pre @ ustr ''@24.8,67.0'' @ post) = (24.8, 67))"
proof (intro conjI allI impI)
  fix m assume "re_search at_rx url = Some m"
  then show "extract_coords url = coords_of_match m" by (simp add: extract_coords_def)
next
  fix m assume "re_search at_rx url = None" "re_search bang_rx url = Some m"
  then show "extract_coords url = coords_of_match m" by (simp add: extract_coords_def)
next
  assume "re_search at_rx url = None" "re_search bang_rx url = None"
  then show "extract_coords url = (0, 0)" by (simp add: extract_coords_def)
next
  fix m :: ustring and g1 g2 assume "py_float g1 = None \<or> py_float g2 = None"
  then show "coords_of_match (m, [g1, g2]) = (0, 0)"
    by (auto simp: coords_of_match_def split: option.splits)
next
  assume pre: "64 \<notin> set pre" and post: "post = [] \<or> \<not> coord_cls (hd post)"
  have ne: "ustr ''@24.8,67.0'' @ post \<noteq> []" by (simp add: ustr_def)
  have "re_search at_rx (pre @ ustr ''@24.8,67.0'' @ post)
          = Some (ustr ''@24.8,67.0'', [ustr ''24.8'', ustr ''67.0''])"
    unfolding re_search_def
    by (rule search_skip_no_at[OF pre ne]) (rule at_match_example[OF post])
  then show "extract_coords (pre @ ustr ''@24.8,67.0'' @ post) = (24.8, 67)"
    by (simp add: extract_coords_def coords_of_match_def example_floats)
qed

theorem extract_coords_contract_witness:
  "64 \<notin> set (ustr ''https://www.google.com/maps/place/X/'')
   \<and> \<not> coord_cls (hd (ustr '',17z''))
   \<and> extract_coords (ustr ''https://www.google.com/maps/place/X/@24.8,67.0,17z'') = (24.8, 67)
   \<and> re_search at_rx (ustr ''no coords here'') = None
   \<and> re_search bang_rx (ustr ''no coords here'') = None
   \<and> extract_coords (ustr ''no coords here'') = (0, 0)"
proof -
  have h1: "64 \<notin> set (ustr ''https://www.google.com/maps/place/X/'')" by (simp add: ustr_def)
  have h2: "\<not> coord_cls (hd (ustr '',17z''))" by (simp add: ustr_def coord_cls_def is_digit_def)
  have u: "ustr ''https://www.google.com/maps/place/X/'' @ ustr ''@24.8,67.0'' @ ustr '',17z''
           = ustr ''https://www.google.com/maps/place/X/@24.8,67.0,17z''"
    by (simp add: ustr_def)
  have n1: "re_search at_rx (ustr ''no coords here'') = None"
    and n2: "re_search bang_rx (ustr ''no coords here'') = None"
    by (simp_all add: coord_eval)
  from extract_coords_contract [of "ustr ''no coords here''" "ustr ''https://www.google.com/maps/place/X/''" "ustr '',17z''"]
    h1 h2 n1 n2
  show ?thesis unfolding u by simp
qed



text \<open>
  C7. Let the calls into \<open>urllib.parse\<close> return on the input (they raise before any listing
  is visited otherwise), the browser launch, open the search page and close without
  raising, and the discovery loop return the references \<open>urls\<close>. If Stop is first seen at
  a poll after listing \<open>j\<close> (counted from 0), and navigation raised for none of the
  listings up to it, the orchestrator returns the records of exactly the listings 0 to
  \<open>j\<close>, in order, each the value of \<open>extract_place\<close>, that is, a record after the final
  pass, with every string field non-empty.
\<close>

theorem stop_keeps_completed_records:
  assumes "output_filename query_q unquote ui = Returns fname"
    and "start_url quote ui = Returns url"
    and "launches w \<and> opens w url \<and> closes w"
    and "listing_discovery fuel mx (w_feed w) = Some (Returns (urls, stopped))"
    and "j < length urls"
    and "\<forall>i\<le>j. \<not> goto_raises (w_visits w i)"
    and "\<forall>i<j. \<not> press_first (w_visits w i) \<and> \<not> press_second (w_visits w i)"
    and "press_first (w_visits w j) \<or> press_second (w_visits w j)"
  shows "scrape_places_streamlit fuel lower fetch query_q unquote quote w ui mx
           = Some (Returns (records_of lower fetch ui (w_visits w) urls (Suc j), fname))
     \<and> length (records_of lower fetch ui (w_visits w) urls (Suc j)) = Suc j
     \<and> list_all (\<lambda>p. list_all (\<lambda>v. v \<noteq> []) (string_fields p))
          (records_of lower fetch ui (w_visits w) urls (Suc j))"
proof (intro conjI)
  have "mx \<le> 0 \<or> int (length urls) \<le> mx"
    using discovery_within_limit[OF assms(4)] .
  then have cap: "mx \<le> 0 \<or> int (0 + j) < mx" using assms(5) by auto
  have g: "\<forall>i\<le>j. \<not> goto_raises (w_visits w (0 + i))" using assms(6) by simp
  have n: "\<forall>i<j. \<not> press_first (w_visits w (0 + i)) \<and> \<not> press_second (w_visits w (0 + i))"
    using assms(7) by simp
  have p: "press_first (w_visits w (0 + j)) \<or> press_second (w_visits w (0 + j))"
    using assms(8) by simp
  have "scrape_listings lower fetch ui mx (w_visits w) 0 urls False []
          = Returns (records_of lower fetch ui (w_visits w) urls (Suc j), True)"
    using scrape_listings_stop[OF assms(5) cap g n p, of lower fetch ui "[]"]
    by (simp add: records_of_def)
  then show "scrape_places_streamlit fuel lower fetch query_q unquote quote w ui mx
           = Some (Returns (records_of lower fetch ui (w_visits w) urls (Suc j), fname))"
    by (rule scrape_after_discovery[OF assms(1,2,3,4)])
  show "length (records_of lower fetch ui (w_visits w) urls (Suc j)) = Suc j"
    by (simp add: records_of_def)
  show "list_all (\<lambda>p. list_all (\<lambda>v. v \<noteq> []) (string_fields p))
          (records_of lower fetch ui (w_visits w) urls (Suc j))"
    by (rule records_fields_nonempty)
qed

theorem stop_keeps_completed_records_witness:
  "output_filename no_query (\<lambda>u. u) (ustr ''cafe'') = Returns (ustr ''cafe.csv'')
   \<and> start_url quote_plain (ustr ''cafe'') = Returns (ustr ''https://www.google.com/maps/search/cafe'')
   \<and> launches stop_second_world
   \<and> opens stop_second_world (ustr ''https://www.google.com/maps/search/cafe'')
   \<and> closes stop_second_world
   \<and> listing_discovery 3 3 (w_feed stop_second_world)
        = Some (Returns ([place_a, place_b, place_c], False))
   \<and> press_first (w_visits stop_second_world 1)
   \<and> scrape_places_streamlit 3 ascii_lower (\<lambda>u. Raises) no_query (\<lambda>u. u) quote_plain
        stop_second_world (ustr ''cafe'') 3
       = Some (Returns (records_of ascii_lower (\<lambda>u. Raises) (ustr ''cafe'')
                          (w_visits stop_second_world) [place_a, place_b, place_c] (Suc 1),
                        ustr ''cafe.csv''))
   \<and> length (records_of ascii_lower (\<lambda>u. Raises) (ustr ''cafe'')
                (w_visits stop_second_world) [place_a, place_b, place_c] (Suc 1)) = 2"
proof -
  have f: "output_filename no_query (\<lambda>u. u) (ustr ''cafe'') = Returns (ustr ''cafe.csv'')"
    by (rule library_examples(1))
  have u: "start_url quote_plain (ustr ''cafe'')
             = Returns (ustr ''https://www.google.com/maps/search/cafe'')"
    by (rule library_examples(2))
  have h1: "launches stop_second_world
              \<and> opens stop_second_world (ustr ''https://www.google.com/maps/search/cafe'')
              \<and> closes stop_second_world"
    by (simp add: stop_second_world_def)
  have h2: "listing_discovery 3 3 (w_feed stop_second_world)
              = Some (Returns ([place_a, place_b, place_c], False))"
    by (simp add: stop_second_world_def discovery_examples)
  have h3: "1 < length [place_a, place_b, place_c]" by simp
  have h4: "\<forall>i\<le>1. \<not> goto_raises (w_visits stop_second_world i)"
    by (simp add: stop_second_world_def calm_visit_def)
  have h5: "\<forall>i<1. \<not> press_first (w_visits stop_second_world i) \<and>
              \<not> press_second (w_visits stop_second_world i)"
    by (simp add: stop_second_world_def calm_visit_def)
  have h6: "press_first (w_visits stop_second_world 1) \<or> press_second (w_visits stop_second_world 1)"
    by (simp add: stop_second_world_def calm_visit_def)
  have p: "press_first (w_visits stop_second_world 1)"
    by (simp add: stop_second_world_def calm_visit_def)
  from stop_keeps_completed_records [OF f u h1 h2 h3 h4 h5 h6, of ascii_lower "\<lambda>u. Raises"]
    f u h1 h2 p
  show ?thesis by simp
qed

text \<open>
  C8. The derived output base name is meant to hold only characters that are safe in a
  file name. The class of \<open>sanitize_filename\<close> keeps the backslash: for the user input
  \<open>a\b\<close> (code points 97, 92, 98), which does not start with \<open>http\<close> and so is its own
  title, the base name is \<open>a\b\<close> again, with the path separator of Windows in it.
\<close>

theorem sanitize_filename_keeps_backslash:
  "output_basename query_q unquote [97, 92, 98] = Returns [97, 92, 98]
   \<and> sanitize_filename [97, 92, 98] = [97, 92, 98]
   \<and> 92 \<in> set (sanitize_filename [97, 92, 98])"
  by (simp add: output_basename_def search_title_def startswith_def sanitize_filename_def
      strip_chars_def strip_where_def fname_kept_def ustr_def)

text \<open>
  C9. When the request succeeds with status 200, each of the four fields is left as it
  was if the body holds no link that starts with \<open>https://\<close> (followed by the host, with
  an optional \<open>www.\<close> for the first three) and at least one path character; otherwise it
  receives the first such link of the body, taken as far as path characters go. A link
  written with \<open>http://\<close> or without a scheme is no such link.
\<close>

theorem social_links_first_https:
  assumes "w \<noteq> []" and "fetch (fetch_url w) = Returns (200, html)"
  shows "sniffed (www_mids (ustr ''instagram.com/'')) html (instagram_url p)
           (instagram_url (extract_social_links fetch w p))
       \<and> sniffed (www_mids (ustr ''facebook.com/'')) html (facebook_url p)
           (facebook_url (extract_social_links fetch w p))
       \<and> sniffed (www_mids (ustr ''linkedin.com/'')) html (linkedin_url p)
           (linkedin_url (extract_social_links fetch w p))
       \<and> sniffed x_mids html (x_url p) (x_url (extract_social_links fetch w p))"
proof -
  have e: "extract_social_links fetch w p = sniff html p"
    using assms by (simp add: extract_social_links_def)
  show ?thesis
    unfolding e sniff_fields instagram_rx_def facebook_rx_def linkedin_rx_def
    by (intro conjI sniffed_first_match accepts_www accepts_x greedy_www greedy_x)
qed

theorem social_links_first_https_witness:
  "ustr ''acme.com'' \<noteq> []
   \<and> (\<lambda>u. Returns (200 :: int, ustr ''<a href=http://instagram.com/acme> https://www.facebook.com/acme?x=1 ''))
        (fetch_url (ustr ''acme.com''))
      = Returns (200, ustr ''<a href=http://instagram.com/acme> https://www.facebook.com/acme?x=1 '')
   \<and> sniffed (www_mids (ustr ''instagram.com/''))
        (ustr ''<a href=http://instagram.com/acme> https://www.facebook.com/acme?x=1 '') []
        (instagram_url (extract_social_links
           (\<lambda>u. Returns (200, ustr ''<a href=http://instagram.com/acme> https://www.facebook.com/acme?x=1 ''))
           (ustr ''acme.com'') new_place))
   \<and> instagram_url (extract_social_links
           (\<lambda>u. Returns (200, ustr ''<a href=http://instagram.com/acme> https://www.facebook.com/acme?x=1 ''))
           (ustr ''acme.com'') new_place) = []
   \<and> facebook_url (extract_social_links
           (\<lambda>u. Returns (200, ustr ''<a href=http://instagram.com/acme> https://www.facebook.com/acme?x=1 ''))
           (ustr ''acme.com'') new_place) = ustr ''https://www.facebook.com/acme?x=1''"
proof -
  let ?html = "ustr ''<a href=http://instagram.com/acme> https://www.facebook.com/acme?x=1 ''"
  let ?fetch = "\<lambda>u::ustring. Returns (200::int, ?html)"
  have h1: "ustr ''acme.com'' \<noteq> []" by (simp add: ustr_def)
  have h2: "?fetch (fetch_url (ustr ''acme.com'')) = Returns (200, ?html)" by simp
  have e: "extract_social_links ?fetch (ustr ''acme.com'') new_place = sniff ?html new_place"
    using h1 by (simp add: extract_social_links_def)
  have i: "instagram_url (extract_social_links ?fetch (ustr ''acme.com'') new_place) = []"
    unfolding e sniff_fields example_links by (simp add: new_place_def)
  have f: "facebook_url (extract_social_links ?fetch (ustr ''acme.com'') new_place)
             = ustr ''https://www.facebook.com/acme?x=1''"
    unfolding e sniff_fields example_links by simp
  have "instagram_url new_place = []" by (simp add: new_place_def)
  with social_links_first_https [OF h1 h2, of new_place] h1 h2 i f show ?thesis
    by simp
qed

text \<open>
  C10. Let the calls into \<open>urllib.parse\<close> return on the input, the browser launch, open the
  search page and close without raising, and the discovery loop end on the stop flag with
  the references \<open>urls\<close>. The flag is cleared before the extraction loop, whatever was
  pressed until then. If Stop is not pressed again and navigation never raises, every
  collected listing is extracted. The extraction loop polls only after a record has been
  appended: when there is a first listing and navigation to it does not raise, a Stop
  pressed before the loop's first poll still leaves that listing extracted.
\<close>

theorem stop_cleared_before_extraction:
  assumes "output_filename query_q unquote ui = Returns fname"
    and "start_url quote ui = Returns url"
    and "launches w \<and> opens w url \<and> closes w"
    and "listing_discovery fuel mx (w_feed w) = Some (Returns (urls, True))"
  shows "clear_stop (True \<or> late_press w) = False
     \<and> ((\<forall>i<length urls. \<not> goto_raises (w_visits w i) \<and> \<not> press_first (w_visits w i) \<and>
              \<not> press_second (w_visits w i)) \<longrightarrow>
          scrape_places_streamlit fuel lower fetch query_q unquote quote w ui mx
            = Some (Returns (records_of lower fetch ui (w_visits w) urls (length urls), fname)))
     \<and> (urls \<noteq> [] \<and> \<not> goto_raises (w_visits w 0) \<and> press_first (w_visits w 0) \<longrightarrow>
          scrape_places_streamlit fuel lower fetch query_q unquote quote w ui mx
            = Some (Returns (records_of lower fetch ui (w_visits w) urls 1, fname)))"
proof (intro conjI impI)
  show "clear_stop (True \<or> late_press w) = False" by (rule clear_stop_False)
next
  assume a: "\<forall>i<length urls. \<not> goto_raises (w_visits w i) \<and> \<not> press_first (w_visits w i) \<and>
              \<not> press_second (w_visits w i)"
  have "mx \<le> 0 \<or> int (length urls) \<le> mx"
    using discovery_within_limit[OF assms(4)] .
  then have cap: "mx \<le> 0 \<or> int (0 + length urls) \<le> mx" by simp
  have a': "\<forall>i<length urls. \<not> goto_raises (w_visits w (0 + i)) \<and> \<not> press_first (w_visits w (0 + i)) \<and>
              \<not> press_second (w_visits w (0 + i))" using a by simp
  have "scrape_listings lower fetch ui mx (w_visits w) 0 urls False []
          = Returns (records_of lower fetch ui (w_visits w) urls (length urls), False)"
    using scrape_listings_all[OF cap a', of lower fetch ui "[]"] by (simp add: records_of_def)
  then show "scrape_places_streamlit fuel lower fetch query_q unquote quote w ui mx
            = Some (Returns (records_of lower fetch ui (w_visits w) urls (length urls), fname))"
    by (rule scrape_after_discovery[OF assms])
next
  assume b: "urls \<noteq> [] \<and> \<not> goto_raises (w_visits w 0) \<and> press_first (w_visits w 0)"
  then have l: "0 < length urls" by simp
  have cap: "mx \<le> 0 \<or> int (0 + 0) < mx" by auto
  have g: "\<forall>i\<le>0. \<not> goto_raises (w_visits w (0 + i))" using b by simp
  have n: "\<forall>i<0. \<not> press_first (w_visits w (0 + i)) \<and> \<not> press_second (w_visits w (0 + i))" by simp
  have p: "press_first (w_visits w (0 + 0)) \<or> press_second (w_visits w (0 + 0))" using b by simp
  have "scrape_listings lower fetch ui mx (w_visits w) 0 urls False []
          = Returns (records_of lower fetch ui (w_visits w) urls 1, True)"
    using scrape_listings_stop[OF l cap g n p, of lower fetch ui "[]"] by (simp add: records_of_def)
  then show "scrape_places_streamlit fuel lower fetch query_q unquote quote w ui mx
            = Some (Returns (records_of lower fetch ui (w_visits w) urls 1, fname))"
    by (rule scrape_after_discovery[OF assms])
qed

theorem stop_cleared_before_extraction_witness:
  "output_filename no_query (\<lambda>u. u) (ustr ''cafe'') = Returns (ustr ''cafe.csv'')
   \<and> start_url quote_plain (ustr ''cafe'') = Returns (ustr ''https://www.google.com/maps/search/cafe'')
   \<and> launches stop_early_world
   \<and> opens stop_early_world (ustr ''https://www.google.com/maps/search/cafe'')
   \<and> closes stop_early_world
   \<and> listing_discovery 2 0 (w_feed stop_early_world) = Some (Returns ([place_a, place_b], True))
   \<and> scrape_places_streamlit 2 ascii_lower (\<lambda>u. Raises) no_query (\<lambda>u. u) quote_plain
        stop_early_world (ustr ''cafe'') 0
       = Some (Returns (records_of ascii_lower (\<lambda>u. Raises) (ustr ''cafe'')
                          (w_visits stop_early_world) [place_a, place_b] 2,
                        ustr ''cafe.csv''))
   \<and> launches stop_twice_world
   \<and> opens stop_twice_world (ustr ''https://www.google.com/maps/search/cafe'')
   \<and> closes stop_twice_world
   \<and> listing_discovery 2 0 (w_feed stop_twice_world) = Some (Returns ([place_a, place_b], True))
   \<and> press_first (w_visits stop_twice_world 0)
   \<and> scrape_places_streamlit 2 ascii_lower (\<lambda>u. Raises) no_query (\<lambda>u. u) quote_plain
        stop_twice_world (ustr ''cafe'') 0
       = Some (Returns (records_of ascii_lower (\<lambda>u. Raises) (ustr ''cafe'')
                          (w_visits stop_twice_world) [place_a, place_b] 1,
                        ustr ''cafe.csv''))"
proof -
  have f: "output_filename no_query (\<lambda>u. u) (ustr ''cafe'') = Returns (ustr ''cafe.csv'')"
    by (rule library_examples(1))
  have u: "start_url quote_plain (ustr ''cafe'')
             = Returns (ustr ''https://www.google.com/maps/search/cafe'')"
    by (rule library_examples(2))
  have e1: "launches stop_early_world
              \<and> opens stop_early_world (ustr ''https://www.google.com/maps/search/cafe'')
              \<and> closes stop_early_world"
    by (simp add: stop_early_world_def)
  have e2: "listing_discovery 2 0 (w_feed stop_early_world) = Some (Returns ([place_a, place_b], True))"
    by (simp add: stop_early_world_def discovery_examples)
  have e3: "\<forall>i<length [place_a, place_b]. \<not> goto_raises (w_visits stop_early_world i) \<and>
              \<not> press_first (w_visits stop_early_world i) \<and> \<not> press_second (w_visits stop_early_world i)"
    by (simp add: stop_early_world_def calm_visit_def)
  have t1: "launches stop_twice_world
              \<and> opens stop_twice_world (ustr ''https://www.google.com/maps/search/cafe'')
              \<and> closes stop_twice_world"
    by (simp add: stop_twice_world_def)
  have t2: "listing_discovery 2 0 (w_feed stop_twice_world) = Some (Returns ([place_a, place_b], True))"
    by (simp add: stop_twice_world_def discovery_examples)
  have t3: "[place_a, place_b] \<noteq> [] \<and> \<not> goto_raises (w_visits stop_twice_world 0) \<and>
              press_first (w_visits stop_twice_world 0)"
    by (simp add: stop_twice_world_def calm_visit_def)
  from stop_cleared_before_extraction [OF f u e1 e2, of ascii_lower "\<lambda>u. Raises"] e3
  have r1: "scrape_places_streamlit 2 ascii_lower (\<lambda>u. Raises) no_query (\<lambda>u. u) quote_plain
        stop_early_world (ustr ''cafe'') 0
       = Some (Returns (records_of ascii_lower (\<lambda>u. Raises) (ustr ''cafe'')
                          (w_visits stop_early_world) [place_a, place_b] 2,
                        ustr ''cafe.csv''))"
    by (simp add: numeral_2_eq_2)
  from stop_cleared_before_extraction [OF f u t1 t2, of ascii_lower "\<lambda>u. Raises"] t3
  have r2: "scrape_places_streamlit 2 ascii_lower (\<lambda>u. Raises) no_query (\<lambda>u. u) quote_plain
        stop_twice_world (ustr ''cafe'') 0
       = Some (Returns (records_of ascii_lower (\<lambda>u. Raises) (ustr ''cafe'')
                          (w_visits stop_twice_world) [place_a, place_b] 1,
                        ustr ''cafe.csv''))"
    by simp
  from f u e1 e2 r1 t1 t2 t3 r2 show ?thesis by simp
qed

end
